theory Spec2Isabelle
  imports Complex_Main "HOL-Library.Word" "HOL-Library.AList"
begin

unbundle bit_operations_syntax

section \<open>JavaScript values\<close>

text \<open>
  The module \<^verbatim>\<open>klavotools/background/competitions.js\<close> computes with JavaScript
  numbers, which are IEEE doubles. A number is modelled as the real it denotes, or
  \<open>NaN\<close>; the infinities are outside the model. An operation with a \<open>NaN\<close> operand
  yields \<open>NaN\<close>, and every comparison with \<open>NaN\<close> is false, as in the language.
\<close>

datatype jsnum = NaN | Num real

text \<open>
  The subtraction, without the rounding of its result to a double: it is used where
  \<^verbatim>\<open>_createNotification\<close> subtracts two durations in seconds.
\<close>

fun js_sub :: "jsnum \<Rightarrow> jsnum \<Rightarrow> jsnum" where
  "js_sub (Num a) (Num b) = Num (a - b)"
| "js_sub _ _ = NaN"

fun js_lt :: "jsnum \<Rightarrow> jsnum \<Rightarrow> bool" where
  "js_lt (Num a) (Num b) = (a < b)"
| "js_lt _ _ = False"

fun js_gt :: "jsnum \<Rightarrow> jsnum \<Rightarrow> bool" where
  "js_gt (Num a) (Num b) = (a > b)"
| "js_gt _ _ = False"

fun js_ge :: "jsnum \<Rightarrow> jsnum \<Rightarrow> bool" where
  "js_ge (Num a) (Num b) = (a \<ge> b)"
| "js_ge _ _ = False"

text \<open>
  \<^verbatim>\<open>Math.round\<close>: the nearest integer, a tie going up, that is \<open>\<lfloor>x + 1/2\<rfloor>\<close>; the
  language defines it on the exact value of its argument.
\<close>

fun Math_round :: "jsnum \<Rightarrow> jsnum" where
  "Math_round (Num a) = Num (of_int \<lfloor>a + 1 / 2\<rfloor>)"
| "Math_round NaN = NaN"

text \<open>
  The values a property of a parameter object or of a competition can hold. Plain
  objects other than arrays are not represented.
\<close>

datatype jsval =
    JUndefined
  | JNull
  | JBool bool
  | JNum jsnum
  | JStr string
  | JArr "jsval list"

text \<open>\<^verbatim>\<open>!!v\<close>: the truthiness of a value.\<close>

fun truthy :: "jsval \<Rightarrow> bool" where
  "truthy JUndefined = False"
| "truthy JNull = False"
| "truthy (JBool b) = b"
| "truthy (JNum NaN) = False"
| "truthy (JNum (Num x)) = (x \<noteq> 0)"
| "truthy (JStr s) = (s \<noteq> [])"
| "truthy (JArr xs) = True"

text \<open>\<^verbatim>\<open>typeof v === 'number'\<close>\<close>

fun is_number :: "jsval \<Rightarrow> bool" where
  "is_number (JNum n) = True"
| "is_number _ = False"

text \<open>\<^verbatim>\<open>typeof v === 'string'\<close>\<close>

fun is_string :: "jsval \<Rightarrow> bool" where
  "is_string (JStr s) = True"
| "is_string _ = False"

section \<open>The host\<close>

text \<open>
  Four built-ins of the JavaScript runtime are parameters of the model:
  \<^item> \<open>dateParse str\<close> is \<^verbatim>\<open>new Date(str).getTime()\<close>, the millisecond instant of a
    date string, \<open>NaN\<close> for a string the runtime cannot parse;
  \<^item> \<open>numberToString n\<close> is the string a number is converted to by \<^verbatim>\<open>+\<close> with a
    string and by \<^verbatim>\<open>String.prototype.indexOf\<close>;
  \<^item> \<open>regexSearch p u\<close> is \<^verbatim>\<open>u.search(new RegExp(p))\<close>, the index of the first match
    of the pattern \<open>p\<close> in \<open>u\<close>, or \<open>-1\<close>;
  \<^item> \<open>toDouble x\<close> is the double that the arithmetic of the runtime rounds the exact
    result \<open>x\<close> of an operation to, the nearest one. A result beyond the range of the
    doubles is rounded to an infinity, which the model does not have: such a
    computation is outside the model.
\<close>

record host =
  dateParse :: "string \<Rightarrow> jsnum"
  numberToString :: "int \<Rightarrow> string"
  regexSearch :: "string \<Rightarrow> string \<Rightarrow> int"
  toDouble :: "real \<Rightarrow> jsnum"

text \<open>
  The four operations of \<^verbatim>\<open>getRemainingTime\<close>, each rounding its exact result to a
  double. The only divisor in the source is the constant 1000.
\<close>

fun dbl_add :: "host \<Rightarrow> jsnum \<Rightarrow> jsnum \<Rightarrow> jsnum" where
  "dbl_add h (Num a) (Num b) = toDouble h (a + b)"
| "dbl_add h _ _ = NaN"

fun dbl_sub :: "host \<Rightarrow> jsnum \<Rightarrow> jsnum \<Rightarrow> jsnum" where
  "dbl_sub h (Num a) (Num b) = toDouble h (a - b)"
| "dbl_sub h _ _ = NaN"

fun dbl_mul :: "host \<Rightarrow> jsnum \<Rightarrow> jsnum \<Rightarrow> jsnum" where
  "dbl_mul h (Num a) (Num b) = toDouble h (a * b)"
| "dbl_mul h _ _ = NaN"

fun dbl_div :: "host \<Rightarrow> jsnum \<Rightarrow> jsnum \<Rightarrow> jsnum" where
  "dbl_div h (Num a) (Num b) = (if b = 0 then NaN else toDouble h (a / b))"
| "dbl_div h _ _ = NaN"

section \<open>The state of a Competitions object\<close>

datatype error = TypeError | Error

text \<open>
  \<^verbatim>\<open>CompetitionData\<close>: the typedef of the source, with the \<^verbatim>\<open>notification\<close> property
  that \<^verbatim>\<open>_notify\<close> adds. The property holds a reference to a DeferredNotification
  object, here its address in the store of the state; \<open>None\<close> is an absent property.
\<close>

record competition =
  comp_id :: int
  ratingValue :: int
  beginTime :: jsval
  notification :: "nat option"

subsection \<open>DeferredNotification\<close>

text \<open>
  Modelled from the spec: the class DeferredNotification, which the module requires and
  which is not part of the source file. The spec gives its contract: it is constructed
  with a title and the options body, icon and display duration, \<^verbatim>\<open>show(delay)\<close>
  schedules it to surface after the delay, and \<^verbatim>\<open>revoke()\<close> is idempotent and cancels
  any pending timer or future display. An object records the competition its closures
  captured (the id used for the address to open, the rating shown in the body), the
  display duration it was constructed with (\<open>None\<close> for \<^verbatim>\<open>undefined\<close>), the delay
  \<^verbatim>\<open>show\<close> was called with, and whether it has been revoked.
\<close>

record deferred_notification =
  n_comp_id :: int
  n_rating :: int
  n_displayTime :: "jsnum option"
  n_shown :: "jsnum option"
  n_revoked :: bool

definition live :: "deferred_notification \<Rightarrow> bool" where
  "live n = (n_shown n \<noteq> None \<and> \<not> n_revoked n)"

text \<open>
  The object itself: the four configuration properties, \<^verbatim>\<open>_hash\<close> as the list of
  its entries in the order \<^verbatim>\<open>for (id in this._hash)\<close> visits them, the server time
  delta \<^verbatim>\<open>_timeCorrection\<close> (\<^verbatim>\<open>null\<close> until the implementing class sets it), the store
  of the DeferredNotification objects created so far, and \<^verbatim>\<open>kango.storage\<close>.
\<close>

record comp_state =
  rates :: jsval
  delay :: jsnum
  displayTime :: jsnum
  audio :: bool
  hash :: "(int \<times> competition) list"
  timeCorrection :: jsval
  store :: "deferred_notification list"
  storage :: "string \<Rightarrow> jsval option"

section \<open>getRemainingTime\<close>

text \<open>
  The first \<^verbatim>\<open>if\<close> chain of \<^verbatim>\<open>getRemainingTime\<close>: \<open>None\<close> is a \<^verbatim>\<open>beginTimestamp\<close> left
  \<^verbatim>\<open>undefined\<close>.
\<close>

fun beginTimestamp :: "host \<Rightarrow> jsval \<Rightarrow> jsnum option" where
  "beginTimestamp h (JStr str) = Some (dateParse h str)"
| "beginTimestamp h (JNum x) = Some (dbl_mul h x (Num 1000))"
| "beginTimestamp h _ = None"

text \<open>
  \<open>now\<close> is the reading of \<^verbatim>\<open>Date.now()\<close>, in milliseconds. A method returns its result
  or the error it throws, together with the state it leaves.
\<close>

definition getRemainingTime ::
  "host \<Rightarrow> real \<Rightarrow> jsval \<Rightarrow> comp_state \<Rightarrow> (error + jsnum) \<times> comp_state" where
  "getRemainingTime h now bt s =
     (case beginTimestamp h bt of
        None \<Rightarrow> (Inl TypeError, s)
      | Some ts \<Rightarrow>
          (case timeCorrection s of
             JNum tc \<Rightarrow>
               (let remaining = dbl_sub h ts (dbl_add h (Num now) tc)
                in (Inr (if js_gt remaining (Num 0)
                         then Math_round (dbl_div h remaining (Num 1000))
                         else Num 0), s))
           | _ \<Rightarrow> (Inl Error, s)))"

section \<open>Arming a notification\<close>

subsection \<open>The operations of DeferredNotification\<close>

text \<open>
  Modelled from the spec: \<^verbatim>\<open>new DeferredNotification(title, options)\<close> creates an object
  that is neither scheduled nor revoked; its reference is the next free address.
\<close>

definition DN_new :: "int \<Rightarrow> int \<Rightarrow> jsnum option \<Rightarrow> comp_state \<Rightarrow> nat \<times> comp_state" where
  "DN_new cid rating dt s =
     (length (store s),
      s\<lparr>store := store s @
         [\<lparr>n_comp_id = cid, n_rating = rating, n_displayTime = dt,
           n_shown = None, n_revoked = False\<rparr>]\<rparr>)"

text \<open>Modelled from the spec: \<^verbatim>\<open>show(delay)\<close> schedules the object at address \<open>a\<close>.\<close>

definition DN_show :: "nat \<Rightarrow> jsnum \<Rightarrow> comp_state \<Rightarrow> comp_state" where
  "DN_show a d s =
     (if a < length (store s)
      then s\<lparr>store := (store s)[a := (store s ! a)\<lparr>n_shown := Some d\<rparr>]\<rparr>
      else s)"

text \<open>
  Modelled from the spec: \<^verbatim>\<open>revoke()\<close> cancels the object at address \<open>a\<close>; revoking a
  revoked object changes nothing.
\<close>

definition DN_revoke :: "nat \<Rightarrow> comp_state \<Rightarrow> comp_state" where
  "DN_revoke a s =
     (if a < length (store s)
      then s\<lparr>store := (store s)[a := (store s ! a)\<lparr>n_revoked := True\<rparr>]\<rparr>
      else s)"

subsection \<open>_createNotification\<close>

text \<open>
  The title, the icon and the two hooks are constants of the source; the model keeps
  what varies: the competition, the display duration, the delay passed to \<^verbatim>\<open>show\<close>.
\<close>

definition createNotification :: "competition \<Rightarrow> jsnum \<Rightarrow> comp_state \<Rightarrow> nat \<times> comp_state" where
  "createNotification c remainingTime s =
     (let showDelay0 = js_sub remainingTime (delay s);
          showDelay = (if js_lt showDelay0 (Num 0) then Num 0 else showDelay0);
          displayTime0 = displayTime s;
          displayTime1 = (if js_gt displayTime0 (js_sub remainingTime showDelay)
                          then js_sub remainingTime showDelay else displayTime0);
          (a, s1) = DN_new (comp_id c) (ratingValue c)
                      (if js_gt displayTime1 (Num 0) then Some displayTime1 else None) s
      in (a, DN_show a showDelay s1))"

subsection \<open>indexOf and the test on its result\<close>

text \<open>
  \<^verbatim>\<open>x === v\<close> for a finite number \<open>v\<close>: only a number of the same value is strictly
  equal to it.
\<close>

fun strict_equals_num :: "jsval \<Rightarrow> real \<Rightarrow> bool" where
  "strict_equals_num (JNum (Num a)) v = (a = v)"
| "strict_equals_num _ v = False"

text \<open>\<^verbatim>\<open>Array.prototype.indexOf\<close>: the first index of a strictly equal element, or \<open>-1\<close>.\<close>

fun array_indexOf_from :: "int \<Rightarrow> jsval list \<Rightarrow> real \<Rightarrow> int" where
  "array_indexOf_from k [] v = - 1"
| "array_indexOf_from k (x # xs) v =
     (if strict_equals_num x v then k else array_indexOf_from (k + 1) xs v)"

text \<open>\<^verbatim>\<open>String.prototype.indexOf\<close>: the first position where the pattern occurs, or \<open>-1\<close>.\<close>

fun string_indexOf_from :: "int \<Rightarrow> string \<Rightarrow> string \<Rightarrow> int" where
  "string_indexOf_from k [] p = (if p = [] then k else - 1)"
| "string_indexOf_from k (c # cs) p =
     (if take (length p) (c # cs) = p then k else string_indexOf_from (k + 1) cs p)"

text \<open>
  \<^verbatim>\<open>this.rates.indexOf(competition.ratingValue)\<close>: an array and a string have the
  method; on the other values the call throws a TypeError.
\<close>

fun js_indexOf :: "host \<Rightarrow> jsval \<Rightarrow> int \<Rightarrow> error + int" where
  "js_indexOf h (JArr xs) rv = Inr (array_indexOf_from 0 xs (of_int rv))"
| "js_indexOf h (JStr str) rv = Inr (string_indexOf_from 0 str (numberToString h rv))"
| "js_indexOf h _ rv = Inl TypeError"

text \<open>
  \<^verbatim>\<open>!!~i\<close>: the operator \<^verbatim>\<open>~\<close> converts its operand to a 32-bit integer and flips every
  bit; the result is falsy only when it is 0.
\<close>

definition not_not_tilde :: "int \<Rightarrow> bool" where
  "not_not_tilde i = (NOT (word_of_int i :: 32 word) \<noteq> 0)"

subsection \<open>_notify\<close>

text \<open>\<^verbatim>\<open>this._hash[id].notification = n\<close>\<close>

definition set_notification :: "int \<Rightarrow> nat \<Rightarrow> comp_state \<Rightarrow> comp_state" where
  "set_notification i a s =
     s\<lparr>hash := AList.map_entry i (\<lambda>c. c\<lparr>notification := Some a\<rparr>) (hash s)\<rparr>"

text \<open>
  Reading a property of \<^verbatim>\<open>this._hash[id]\<close> when there is no such entry throws a
  TypeError. The conjunction of the source is evaluated left to right and stops at the
  first false operand, so \<^verbatim>\<open>indexOf\<close> is only called when both comparisons hold.
\<close>

definition notify :: "host \<Rightarrow> real \<Rightarrow> int \<Rightarrow> comp_state \<Rightarrow> (error + unit) \<times> comp_state" where
  "notify h now i s =
     (case map_of (hash s) i of
        None \<Rightarrow> (Inl TypeError, s)
      | Some c \<Rightarrow>
          (case getRemainingTime h now (beginTime c) s of
             (Inl e, s1) \<Rightarrow> (Inl e, s1)
           | (Inr remainingTime, s1) \<Rightarrow>
               if js_gt (delay s1) (Num 0) \<and> js_gt remainingTime (Num 0)
               then (case js_indexOf h (rates s1) (ratingValue c) of
                       Inl e \<Rightarrow> (Inl e, s1)
                     | Inr k \<Rightarrow>
                         if not_not_tilde k
                         then (let (a, s2) = createNotification c remainingTime s1
                               in (Inr (), set_notification i a s2))
                         else (Inr (), s1))
               else (Inr (), s1)))"

section \<open>Reconciliation\<close>

subsection \<open>_updateNotifications\<close>

text \<open>The two statements of the loop body, for the competition \<open>c\<close> found under \<open>i\<close>.\<close>

definition revoke_existing :: "competition \<Rightarrow> comp_state \<Rightarrow> comp_state" where
  "revoke_existing c s = (case notification c of Some a \<Rightarrow> DN_revoke a s | None \<Rightarrow> s)"

definition renotify ::
  "host \<Rightarrow> real \<Rightarrow> int \<Rightarrow> competition \<Rightarrow> comp_state \<Rightarrow> (error + unit) \<times> comp_state" where
  "renotify h now i c s = (if beginTime c \<noteq> JNull then notify h now i s else (Inr (), s))"

text \<open>
  The loop over the keys of \<^verbatim>\<open>_hash\<close>. A key whose entry is gone when its turn comes
  is not visited. An error leaves the loop with the state reached so far.
\<close>

fun updateNotifications_loop ::
  "host \<Rightarrow> real \<Rightarrow> int list \<Rightarrow> comp_state \<Rightarrow> (error + unit) \<times> comp_state" where
  "updateNotifications_loop h now [] s = (Inr (), s)"
| "updateNotifications_loop h now (i # is) s =
     (case map_of (hash s) i of
        None \<Rightarrow> updateNotifications_loop h now is s
      | Some c \<Rightarrow>
          (case renotify h now i c (revoke_existing c s) of
             (Inl e, s2) \<Rightarrow> (Inl e, s2)
           | (Inr u, s2) \<Rightarrow> updateNotifications_loop h now is s2))"

definition updateNotifications :: "host \<Rightarrow> real \<Rightarrow> comp_state \<Rightarrow> (error + unit) \<times> comp_state" where
  "updateNotifications h now s = updateNotifications_loop h now (map fst (hash s)) s"

text \<open>
  The states the loop passes through, in order: after each revocation and after each
  call of \<^verbatim>\<open>_notify\<close>.
\<close>

fun updateNotifications_trace ::
  "host \<Rightarrow> real \<Rightarrow> int list \<Rightarrow> comp_state \<Rightarrow> comp_state list" where
  "updateNotifications_trace h now [] s = []"
| "updateNotifications_trace h now (i # is) s =
     (case map_of (hash s) i of
        None \<Rightarrow> updateNotifications_trace h now is s
      | Some c \<Rightarrow>
          (case renotify h now i c (revoke_existing c s) of
             (Inl e, s2) \<Rightarrow> [revoke_existing c s, s2]
           | (Inr u, s2) \<Rightarrow>
               revoke_existing c s # s2 # updateNotifications_trace h now is s2))"

subsection \<open>setParams\<close>

text \<open>The parameter object; an absent property reads as \<^verbatim>\<open>undefined\<close>.\<close>

record params =
  p_rates :: jsval
  p_audio :: jsval
  p_displayTime :: jsval
  p_delay :: jsval

text \<open>\<^verbatim>\<open>v != void 0\<close>: the loose comparison holds \<^verbatim>\<open>null\<close> equal to \<^verbatim>\<open>undefined\<close>.\<close>

fun not_loosely_undefined :: "jsval \<Rightarrow> bool" where
  "not_loosely_undefined JUndefined = False"
| "not_loosely_undefined JNull = False"
| "not_loosely_undefined _ = True"

text \<open>\<^verbatim>\<open>typeof v === 'number' && v >= 0\<close>\<close>

fun number_ge_0 :: "jsval \<Rightarrow> jsnum option" where
  "number_ge_0 (JNum n) = (if js_ge n (Num 0) then Some n else None)"
| "number_ge_0 _ = None"

definition setItem :: "string \<Rightarrow> jsval \<Rightarrow> comp_state \<Rightarrow> comp_state" where
  "setItem k v s = s\<lparr>storage := (storage s)(k \<mapsto> v)\<rparr>"

text \<open>The assignments and the four writes to the storage, before the reconciliation.\<close>

definition setParams_config :: "params \<Rightarrow> comp_state \<Rightarrow> comp_state" where
  "setParams_config param s =
     (let s1 = s\<lparr>rates := (if truthy (p_rates param) then p_rates param else rates s)\<rparr>;
          s2 = s1\<lparr>audio := (if not_loosely_undefined (p_audio param)
                              then truthy (p_audio param) else audio s1)\<rparr>;
          s3 = (case number_ge_0 (p_displayTime param) of
                  Some n \<Rightarrow> s2\<lparr>displayTime := n\<rparr> | None \<Rightarrow> s2);
          s4 = (case number_ge_0 (p_delay param) of
                  Some n \<Rightarrow> s3\<lparr>delay := n\<rparr> | None \<Rightarrow> s3);
          s5 = setItem ''competition_delay'' (JNum (delay s4)) s4;
          s6 = setItem ''competition_rates'' (rates s5) s5;
          s7 = setItem ''competition_displayTime'' (JNum (displayTime s6)) s6
      in setItem ''competition_audio'' (JBool (audio s7)) s7)"

definition setParams ::
  "host \<Rightarrow> real \<Rightarrow> params \<Rightarrow> comp_state \<Rightarrow> (error + unit) \<times> comp_state" where
  "setParams h now param s = updateNotifications h now (setParams_config param s)"

definition setParams_trace :: "host \<Rightarrow> real \<Rightarrow> params \<Rightarrow> comp_state \<Rightarrow> comp_state list" where
  "setParams_trace h now param s =
     (let s1 = setParams_config param s
      in s1 # updateNotifications_trace h now (map fst (hash s1)) s1)"

section \<open>Pruning\<close>

subsection \<open>_clearStarted\<close>

fun clearStarted_loop ::
  "host \<Rightarrow> real \<Rightarrow> int list \<Rightarrow> comp_state \<Rightarrow> (error + unit) \<times> comp_state" where
  "clearStarted_loop h now [] s = (Inr (), s)"
| "clearStarted_loop h now (i # is) s =
     (case map_of (hash s) i of
        None \<Rightarrow> clearStarted_loop h now is s
      | Some c \<Rightarrow>
          if beginTime c \<noteq> JNull
          then (case getRemainingTime h now (beginTime c) s of
                  (Inl e, s1) \<Rightarrow> (Inl e, s1)
                | (Inr r, s1) \<Rightarrow>
                    if r = Num 0
                    then clearStarted_loop h now is (s1\<lparr>hash := AList.delete i (hash s1)\<rparr>)
                    else clearStarted_loop h now is s1)
          else clearStarted_loop h now is s)"

definition clearStarted :: "host \<Rightarrow> real \<Rightarrow> comp_state \<Rightarrow> (error + unit) \<times> comp_state" where
  "clearStarted h now s = clearStarted_loop h now (map fst (hash s)) s"

subsection \<open>_clearAll and teardown\<close>

fun clearAll_loop :: "int list \<Rightarrow> comp_state \<Rightarrow> comp_state" where
  "clearAll_loop [] s = s"
| "clearAll_loop (i # is) s =
     (case map_of (hash s) i of
        None \<Rightarrow> clearAll_loop is s
      | Some c \<Rightarrow>
          (let s1 = revoke_existing c s
           in clearAll_loop is (s1\<lparr>hash := AList.delete i (hash s1)\<rparr>)))"

definition clearAll :: "comp_state \<Rightarrow> comp_state" where
  "clearAll s = clearAll_loop (map fst (hash s)) s"

text \<open>
  \<^verbatim>\<open>MutableModule.prototype.teardown\<close> is not part of the source file; what it does to
  the object is the parameter \<open>base\<close>.
\<close>

definition teardown :: "(comp_state \<Rightarrow> comp_state) \<Rightarrow> comp_state \<Rightarrow> comp_state" where
  "teardown base s = clearAll (base s)"

section \<open>The hook before the display\<close>

text \<open>
  A tab as \<^verbatim>\<open>kango.browser.tabs.getAll\<close> reports it: whether its \<^verbatim>\<open>_tab\<close> property is
  truthy, and the result of \<^verbatim>\<open>getUrl()\<close>.
\<close>

record tab =
  has_tab :: bool
  getUrl :: string





section \<open>Sample inputs\<close>

text \<open>
  A host that knows one date string, the decimal form of three numbers and one
  match: the pattern for competition 7 matches the address of its page at index 7,
  where \<^verbatim>\<open>klavogonki\<close> begins. Its rounding leaves a real as it is: the sample runs
  only lead to reals that are doubles (integers, and quotients such as 0.25 and 299.5).
\<close>

definition demo_host :: host where
  "demo_host =
     \<lparr>dateParse = (\<lambda>str. if str = ''2015-01-01T00:00:00Z'' then Num 1420070400000 else NaN),
      numberToString = (\<lambda>n. if n = 7 then ''7'' else if n = 3 then ''3'' else ''9''),
      regexSearch = (\<lambda>p u. if p = ''klavogonki.ru/g/'' @ [CHR 0x5C] @ ''?gmid=7$'' \<and>
                               u = ''http://klavogonki.ru/g/?gmid=7'' then 7 else - 1),
      toDouble = (\<lambda>x. Num x)\<rparr>"

text \<open>
  The double nearest to 1420151068.711, a number of seconds with a fraction: it is
  \<open>2978272654049411 / 2 ^ 21\<close>, a little less than 1420151068.711.
\<close>

definition fractional_seconds :: real where
  "fractional_seconds = 2978272654049411 / 2 ^ 21"

text \<open>
  The product of that double and 1000 is \<open>1420151068711 - 9 / 2 ^ 18\<close>, which is not a
  double; the doubles next to it are \<open>2 ^ 12\<close>-ths, and the nearest is 1420151068711. A
  host that rounds this product as the runtime does; the other reals of the run with it
  (1420151067211, 1500 and 1.5) are doubles.
\<close>

definition rounding_host :: host where
  "rounding_host =
     demo_host\<lparr>toDouble :=
       (\<lambda>x. if x = fractional_seconds * 1000 then Num 1420151068711 else Num x)\<rparr>"

text \<open>
  Two competitions, of rating 3 and 5, that begin 1300 and 1400 seconds after the
  epoch, each with a scheduled notification.
\<close>

definition demo_state :: comp_state where
  "demo_state =
     \<lparr>rates = JArr [JNum (Num 3), JNum (Num 5)], delay = Num 60, displayTime = Num 0,
      audio = True,
      hash = [(7, \<lparr>comp_id = 7, ratingValue = 3, beginTime = JNum (Num 1300),
                    notification = Some 0\<rparr>),
              (9, \<lparr>comp_id = 9, ratingValue = 5, beginTime = JNum (Num 1400),
                    notification = Some 1\<rparr>)],
      timeCorrection = JNum (Num 0),
      store = [\<lparr>n_comp_id = 7, n_rating = 3, n_displayTime = None,
                 n_shown = Some (Num 240), n_revoked = False\<rparr>,
               \<lparr>n_comp_id = 9, n_rating = 5, n_displayTime = None,
                 n_shown = Some (Num 340), n_revoked = False\<rparr>],
      storage = (\<lambda>k. None)\<rparr>"

text \<open>
  A parameter object without \<^verbatim>\<open>rates\<close>, with the number 0 as \<^verbatim>\<open>audio\<close>, a negative
  \<^verbatim>\<open>displayTime\<close> and a string as \<^verbatim>\<open>delay\<close>.
\<close>

definition demo_params :: params where
  "demo_params =
     \<lparr>p_rates = JUndefined, p_audio = JNum (Num 0), p_displayTime = JNum (Num (- 1)),
      p_delay = JStr ''5''\<rparr>"

text \<open>The parameter object that only sets the delay to 0.\<close>

definition demo_params_delay0 :: params where
  "demo_params_delay0 =
     \<lparr>p_rates = JUndefined, p_audio = JUndefined, p_displayTime = JUndefined,
      p_delay = JNum (Num 0)\<rparr>"

section \<open>Predicates used in the statements\<close>

text \<open>Everything of the state but the table of competitions and the store is the same.\<close>

definition same_config :: "comp_state \<Rightarrow> comp_state \<Rightarrow> bool" where
  "same_config s s' =
     (rates s' = rates s \<and> delay s' = delay s \<and> displayTime s' = displayTime s \<and>
      audio s' = audio s \<and> timeCorrection s' = timeCorrection s \<and> storage s' = storage s)"

text \<open>
  From \<open>s\<close> to \<open>s'\<close> the store keeps its objects, and each of them is as it was or has
  been revoked.
\<close>

definition only_revokes :: "comp_state \<Rightarrow> comp_state \<Rightarrow> bool" where
  "only_revokes s s' =
     (length (store s') = length (store s) \<and>
      (\<forall>a < length (store s).
         store s' ! a = store s ! a \<or> store s' ! a = (store s ! a)\<lparr>n_revoked := True\<rparr>))"

text \<open>
  What the statements use of the rounding to the nearest double: an integer of magnitude
  below \<open>2 ^ 53\<close> is a double, so is the half of one, and from \<open>1 / 1000\<close> to \<open>2 ^ 53\<close> the
  rounding moves a real by at most \<open>2 ^ 53\<close>-th of its magnitude.
\<close>

definition ieee_rounding :: "host \<Rightarrow> bool" where
  "ieee_rounding h =
     ((\<forall>n :: int. \<bar>n\<bar> < 2 ^ 53 \<longrightarrow> toDouble h (of_int n) = Num (of_int n)) \<and>
      (\<forall>m :: int. \<bar>m\<bar> < 2 ^ 53 \<longrightarrow> toDouble h (of_int m / 2) = Num (of_int m / 2)) \<and>
      (\<forall>x :: real. 1 / 1000 \<le> \<bar>x\<bar> \<and> \<bar>x\<bar> \<le> 2 ^ 53 \<longrightarrow>
         (\<exists>y. toDouble h x = Num y \<and> \<bar>y - x\<bar> \<le> \<bar>x\<bar> / 2 ^ 53)))"

text \<open>
  The start time \<open>bt\<close> is a whole number \<open>t\<close> of milliseconds: a string the host parses
  to \<open>t\<close>, or a whole number of seconds.
\<close>

definition whole_ms :: "host \<Rightarrow> jsval \<Rightarrow> int \<Rightarrow> bool" where
  "whole_ms h bt t =
     (case bt of
        JStr str \<Rightarrow> dateParse h str = Num (of_int t)
      | JNum (Num v) \<Rightarrow> v = of_int \<lfloor>v\<rfloor> \<and> t = \<lfloor>v\<rfloor> * 1000
      | _ \<Rightarrow> False)"

text \<open>
  The integers \<open>t\<close> (start instant), \<open>n\<close> (reading of the clock) and \<open>tc\<close> (time
  correction), their sum and their difference are of magnitude below \<open>2 ^ 53\<close>, so that
  each is a double.
\<close>

definition safe_ms :: "int \<Rightarrow> int \<Rightarrow> int \<Rightarrow> bool" where
  "safe_ms t n tc =
     (\<bar>t\<bar> < 2 ^ 53 \<and> \<bar>n\<bar> < 2 ^ 53 \<and> \<bar>tc\<bar> < 2 ^ 53 \<and> \<bar>n + tc\<bar> < 2 ^ 53 \<and>
      \<bar>t - (n + tc)\<bar> < 2 ^ 53)"

text \<open>
  The condition under which \<^verbatim>\<open>_clearStarted\<close> deletes the entry of a competition:
  \<^verbatim>\<open>beginTime !== null && this.getRemainingTime(beginTime) === 0\<close>.
\<close>

definition started :: "host \<Rightarrow> real \<Rightarrow> comp_state \<Rightarrow> competition \<Rightarrow> bool" where
  "started h now s c =
     (beginTime c \<noteq> JNull \<and> fst (getRemainingTime h now (beginTime c) s) = Inr (Num 0))"

text \<open>The start time of a competition is \<^verbatim>\<open>null\<close>, a string or a number, as its typedef says.\<close>

definition beginTime_typed :: "competition \<Rightarrow> bool" where
  "beginTime_typed c = (beginTime c = JNull \<or> is_string (beginTime c) \<or> is_number (beginTime c))"

text \<open>
  From \<open>s\<close> to \<open>s'\<close> the store keeps the objects it had, each as it was or revoked,
  and may have gained new ones.
\<close>

definition extends :: "comp_state \<Rightarrow> comp_state \<Rightarrow> bool" where
  "extends s s' =
     (length (store s) \<le> length (store s') \<and>
      (\<forall>a < length (store s).
         store s' ! a = store s ! a \<or> store s' ! a = (store s ! a)\<lparr>n_revoked := True\<rparr>))"

text \<open>The table has one entry for a key, and a competition is stored under its id.\<close>

definition table_ok :: "comp_state \<Rightarrow> bool" where
  "table_ok s = (distinct (map fst (hash s)) \<and> (\<forall>(k, c) \<in> set (hash s). comp_id c = k))"

text \<open>No two live notifications are for the same competition id.\<close>

definition one_live_per_id :: "comp_state \<Rightarrow> bool" where
  "one_live_per_id s =
     (\<forall>a < length (store s). \<forall>b < length (store s).
        live (store s ! a) \<and> live (store s ! b) \<and>
        n_comp_id (store s ! a) = n_comp_id (store s ! b) \<longrightarrow> a = b)"

text \<open>
  A live notification for the id of an entry of the table is the one the entry refers
  to.
\<close>

definition owned :: "comp_state \<Rightarrow> bool" where
  "owned s =
     (\<forall>(k, c) \<in> set (hash s). \<forall>a < length (store s).
        live (store s ! a) \<and> n_comp_id (store s ! a) = k \<longrightarrow> notification c = Some a)"

text \<open>Every reference held by an entry is the address of an object of the store.\<close>

definition refs_valid :: "comp_state \<Rightarrow> bool" where
  "refs_valid s =
     (\<forall>(k, c) \<in> set (hash s). \<forall>a. notification c = Some a \<longrightarrow> a < length (store s))"

text \<open>An entry whose start time is \<^verbatim>\<open>null\<close> holds no reference.\<close>

definition null_unarmed :: "comp_state \<Rightarrow> bool" where
  "null_unarmed s = (\<forall>(k, c) \<in> set (hash s). beginTime c = JNull \<longrightarrow> notification c = None)"

text \<open>The values that have a method \<^verbatim>\<open>indexOf\<close>.\<close>

fun has_indexOf :: "jsval \<Rightarrow> bool" where
  "has_indexOf (JArr xs) = True"
| "has_indexOf (JStr str) = True"
| "has_indexOf _ = False"

text \<open>
  The conditions under which no call of the reconciliation throws: the time correction
  is a number, the start times are \<^verbatim>\<open>null\<close>, strings or numbers, and \<^verbatim>\<open>rates\<close> has the
  method \<^verbatim>\<open>indexOf\<close> if the delay is positive.
\<close>

definition well_typed :: "comp_state \<Rightarrow> bool" where
  "well_typed s =
     (is_number (timeCorrection s) \<and> (\<forall>(k, c) \<in> set (hash s). beginTime_typed c) \<and>
      (js_gt (delay s) (Num 0) \<longrightarrow> has_indexOf (rates s)))"

text \<open>The condition of the \<^verbatim>\<open>if\<close> in \<^verbatim>\<open>_notify\<close>, false when its evaluation throws.\<close>

definition eligible :: "host \<Rightarrow> real \<Rightarrow> comp_state \<Rightarrow> competition \<Rightarrow> bool" where
  "eligible h now s c =
     (js_gt (delay s) (Num 0) \<and>
      (case fst (getRemainingTime h now (beginTime c) s) of
         Inr r \<Rightarrow> js_gt r (Num 0) | Inl e \<Rightarrow> False) \<and>
      (case js_indexOf h (rates s) (ratingValue c) of
         Inr k \<Rightarrow> not_not_tilde k | Inl e \<Rightarrow> False))"

text \<open>What the reconciliation assumes of the state it starts from, and maintains.\<close>

definition engine_inv :: "comp_state \<Rightarrow> bool" where
  "engine_inv s = (table_ok s \<and> one_live_per_id s \<and> owned s)"

section \<open>The remaining time\<close>

lemma getRemainingTime_state [simp]: "snd (getRemainingTime h now bt s) = s"
  by (simp add: getRemainingTime_def Let_def split: option.splits jsval.splits)

lemma toDouble_int:
  "ieee_rounding h \<Longrightarrow> \<bar>n\<bar> < 2 ^ 53 \<Longrightarrow> toDouble h (of_int n) = Num (of_int n)"
  by (simp add: ieee_rounding_def)

lemma toDouble_half:
  "ieee_rounding h \<Longrightarrow> \<bar>m\<bar> < 2 ^ 53 \<Longrightarrow> toDouble h (of_int m / 2) = Num (of_int m / 2)"
  by (simp add: ieee_rounding_def)

lemma toDouble_near:
  "ieee_rounding h \<Longrightarrow> 1 / 1000 \<le> \<bar>x\<bar> \<Longrightarrow> \<bar>x\<bar> \<le> 2 ^ 53 \<Longrightarrow>
   \<exists>y. toDouble h x = Num y \<and> \<bar>y - x\<bar> \<le> \<bar>x\<bar> / 2 ^ 53"
  by (simp add: ieee_rounding_def)

text \<open>
  The quotient of a whole number of milliseconds by 1000 is rounded to a double that
  \<^verbatim>\<open>Math.round\<close> takes to the same integer as the exact quotient.
\<close>

lemma round_quotient:
  assumes h: "ieee_rounding h" and r: "0 < r" "r < 2 ^ 53"
  shows "\<exists>y. toDouble h (of_int r / 1000) = Num y \<and>
             \<lfloor>y + 1 / 2\<rfloor> = \<lfloor>(of_int r :: real) / 1000 + 1 / 2\<rfloor>"
proof (cases "(r + 500) mod 1000 = 0")
  case True
  then have "1000 dvd r + 500"
    by (simp add: mod_eq_0_iff_dvd)
  then obtain j where j: "r + 500 = 1000 * j"
    by (rule dvdE)
  then have r500: "r = 500 * (2 * j - 1)"
    by simp
  from r(1) r500 have "0 < 2 * j - 1" by simp
  moreover from this r500 have "2 * j - 1 \<le> r" by simp
  ultimately have "\<bar>2 * j - 1\<bar> < 2 ^ 53"
    using r(2) by simp
  from toDouble_half [OF h this]
  have hd: "toDouble h (of_int (2 * j - 1) / 2) = Num (of_int (2 * j - 1) / 2)" .
  have eq: "(of_int r :: real) / 1000 = of_int (2 * j - 1) / 2"
    unfolding r500 by simp
  have "toDouble h (of_int r / 1000) = Num (of_int r / 1000)"
    unfolding eq by (rule hd)
  then show ?thesis by blast
next
  case False
  define k where "k = (r + 500) div 1000"
  define m where "m = (r + 500) mod 1000"
  have "0 \<le> (r + 500) mod 1000" "(r + 500) mod 1000 < 1000"
    by simp_all
  with False have m: "1 \<le> m" "m \<le> 999"
    unfolding m_def by linarith+
  have rk: "r + 500 = 1000 * k + m"
    by (simp add: k_def m_def)
  let ?x = "(of_int r :: real) / 1000"
  have mr: "1 \<le> (of_int m :: real)" "(of_int m :: real) \<le> 999"
    using m by simp_all
  have "(of_int r :: real) < of_int (2 ^ 53)"
    using r(2) by (simp only: of_int_less_iff)
  then have rr: "1 \<le> (of_int r :: real)" "(of_int r :: real) < 2 ^ 53"
    using r(1) by simp_all
  from rk have "(of_int (r + 500) :: real) = of_int (1000 * k + m)"
    by simp
  then have "(of_int r :: real) = 1000 * of_int k + of_int m - 500"
    by simp
  then have x: "?x + 1 / 2 = of_int k + of_int m / 1000"
    by (simp add: field_simps)
  have ax: "\<bar>?x\<bar> = ?x"
    using rr by simp
  have xr: "1 / 1000 \<le> \<bar>?x\<bar>" "\<bar>?x\<bar> \<le> 2 ^ 53"
    unfolding ax using rr by simp_all
  from toDouble_near [OF h xr] obtain y where y: "toDouble h ?x = Num y"
    "\<bar>y - ?x\<bar> \<le> \<bar>?x\<bar> / 2 ^ 53"
    by blast
  have "?x / 2 ^ 53 < (2 ^ 53 / 1000) / 2 ^ 53"
    using rr(2) by (intro divide_strict_right_mono) simp_all
  then have "\<bar>?x\<bar> / 2 ^ 53 < 1 / 1000"
    unfolding ax by simp
  with y(2) have d: "\<bar>y - ?x\<bar> < 1 / 1000"
    by linarith
  then have lo: "?x - 1 / 1000 < y" and hi: "y < ?x + 1 / 1000"
    by linarith+
  have "of_int k \<le> y + 1 / 2"
    using lo x mr by linarith
  moreover have "y + 1 / 2 < of_int k + 1"
    using hi x mr by linarith
  ultimately have "\<lfloor>y + 1 / 2\<rfloor> = k"
    by (simp add: floor_eq_iff)
  moreover have "of_int k \<le> ?x + 1 / 2" "?x + 1 / 2 < of_int k + 1"
    using x mr by linarith+
  then have "\<lfloor>?x + 1 / 2\<rfloor> = k"
    by (simp add: floor_eq_iff)
  ultimately show ?thesis using y(1) by simp
qed


lemma beginTimestamp_whole:
  assumes "ieee_rounding h" and "whole_ms h bt t" and "\<bar>t\<bar> < 2 ^ 53"
  shows "beginTimestamp h bt = Some (Num (of_int t))"
proof (cases bt)
  case (JNum v)
  with assms(2) obtain w where w: "v = Num w" "w = of_int \<lfloor>w\<rfloor>" "t = \<lfloor>w\<rfloor> * 1000"
    by (cases v) (auto simp: whole_ms_def)
  have "w * 1000 = of_int t"
    unfolding w(3) using w(2) by simp
  with toDouble_int [OF assms(1,3)] JNum w(1) show ?thesis
    by simp
next
  case (JStr str)
  with assms(2) show ?thesis by (simp add: whole_ms_def)
qed (use assms(2) in \<open>simp_all add: whole_ms_def\<close>)

text \<open>The value of \<^verbatim>\<open>getRemainingTime\<close> on whole numbers of milliseconds.\<close>

lemma getRemainingTime_whole:
  assumes h: "ieee_rounding h" and tc: "timeCorrection s = JNum (Num (of_int c))"
    and bt: "whole_ms h bt t" and safe: "safe_ms t n c"
  shows "fst (getRemainingTime h (of_int n) bt s) =
           Inr (Num (if 0 < t - (n + c)
                     then of_int \<lfloor>(of_int (t - (n + c)) :: real) / 1000 + 1 / 2\<rfloor> else 0))"
proof -
  let ?r = "t - (n + c)"
  from safe have b: "\<bar>t\<bar> < 2 ^ 53" "\<bar>n + c\<bar> < 2 ^ 53" "\<bar>?r\<bar> < 2 ^ 53"
    by (simp_all add: safe_ms_def)
  have ts: "beginTimestamp h bt = Some (Num (of_int t))"
    using h bt b(1) by (rule beginTimestamp_whole)
  have sum: "dbl_add h (Num (of_int n)) (Num (of_int c)) = Num (of_int (n + c))"
    using toDouble_int [OF h b(2)] by simp
  have rem: "dbl_sub h (Num (of_int t)) (Num (of_int (n + c))) = Num (of_int ?r)"
    using toDouble_int [OF h b(3)] by simp
  show ?thesis
  proof (cases "0 < ?r")
    case True
    with b(3) have "?r < 2 ^ 53" by simp
    from round_quotient [OF h True this] obtain y
      where y: "toDouble h (of_int ?r / 1000) = Num y"
        "\<lfloor>y + 1 / 2\<rfloor> = \<lfloor>(of_int ?r :: real) / 1000 + 1 / 2\<rfloor>"
      by blast
    with True ts tc sum rem show ?thesis
      by (simp add: getRemainingTime_def)
  next
    case False
    with ts tc sum rem show ?thesis
      by (simp add: getRemainingTime_def)
  qed
qed

text \<open>
  C1, as the code has it. The host rounds to the nearest double; the start time is a
  string the host parses to the whole number \<open>t\<close> of milliseconds, or a whole number \<open>x\<close>
  of seconds with \<open>t = x * 1000\<close>; the clock reads the whole number \<open>n\<close> and the time
  correction is the whole number \<open>c\<close>, all of magnitude below \<open>2 ^ 53\<close>. Then
  \<^verbatim>\<open>getRemainingTime\<close> returns \<open>(t - (n + c)) / 1000\<close> rounded to the nearest integer when
  \<open>t - (n + c)\<close> is positive and 0 otherwise, a value that is never negative, and leaves
  the state as it was.
\<close>

theorem getRemainingTime_rounds:
  assumes "ieee_rounding h"
    and "timeCorrection s = JNum (Num (of_int c))"
    and "(bt = JStr str \<and> dateParse h str = Num (of_int t)) \<or>
         (bt = JNum (Num (of_int x)) \<and> t = x * 1000)"
    and "safe_ms t n c"
  shows "fst (getRemainingTime h (of_int n) bt s) =
           Inr (Num (if 0 < t - (n + c)
                     then of_int (round ((of_int t - (of_int n + of_int c)) / 1000 :: real))
                     else 0))
         \<and> 0 \<le> (if 0 < t - (n + c)
                  then round ((of_int t - (of_int n + of_int c)) / 1000 :: real) else 0)
         \<and> snd (getRemainingTime h (of_int n) bt s) = s"
proof -
  from assms(3) have "whole_ms h bt t"
    by (auto simp: whole_ms_def)
  from getRemainingTime_whole [OF assms(1,2) this assms(4)]
  have v: "fst (getRemainingTime h (of_int n) bt s) =
      Inr (Num (if 0 < t - (n + c)
                then of_int (round ((of_int t - (of_int n + of_int c)) / 1000 :: real)) else 0))"
    by (simp add: round_def)
  have "0 < t - (n + c) \<Longrightarrow> 0 \<le> round ((of_int t - (of_int n + of_int c)) / 1000 :: real)"
  proof -
    assume "0 < t - (n + c)"
    then have "0 < (of_int (t - (n + c)) :: real)" by (simp only: of_int_0_less_iff)
    then show ?thesis by (simp add: round_def)
  qed
  with v show ?thesis by simp
qed

lemma demo_host_ieee: "ieee_rounding demo_host"
  by (simp add: ieee_rounding_def demo_host_def)

theorem getRemainingTime_rounds_witness:
  "timeCorrection demo_state = JNum (Num 0) \<and>
   dateParse demo_host ''2015-01-01T00:00:00Z'' = Num 1420070400000 \<and>
   fst (getRemainingTime demo_host 1420070100500 (JStr ''2015-01-01T00:00:00Z'') demo_state) =
     Inr (Num 300)"
proof -
  have tc: "timeCorrection demo_state = JNum (Num (of_int 0))"
    by (simp add: demo_state_def)
  have dp: "JStr ''2015-01-01T00:00:00Z'' = JStr ''2015-01-01T00:00:00Z'' \<and>
      dateParse demo_host ''2015-01-01T00:00:00Z'' = Num (of_int 1420070400000) \<or>
      JStr ''2015-01-01T00:00:00Z'' = JNum (Num (of_int 0)) \<and> (1420070400000 :: int) = 0 * 1000"
    by (simp add: demo_host_def)
  have sf: "safe_ms 1420070400000 1420070100500 0"
    by (simp add: safe_ms_def)
  from getRemainingTime_rounds [OF demo_host_ieee tc dp sf] tc dp
  show ?thesis by (simp add: round_def demo_host_def)
qed

text \<open>
  For a number of seconds with a fraction the product with 1000 is rounded to a double
  before the subtraction. At 1420151068.711 seconds, with the clock at 1420151067211, the
  rounded product is 1420151068711 and the call returns \<open>Math.round 1.5 = 2\<close>, while the
  start instant is less than 1500 ms ahead and the quotient rounds to 1.
\<close>

theorem getRemainingTime_fraction_counterexample:
  "toDouble rounding_host (fractional_seconds * 1000) = Num 1420151068711 \<and>
   timeCorrection demo_state = JNum (Num 0) \<and>
   fst (getRemainingTime rounding_host 1420151067211 (JNum (Num fractional_seconds)) demo_state) =
     Inr (Num 2) \<and>
   round ((fractional_seconds * 1000 - (1420151067211 + 0)) / 1000) = (1 :: int)"
  by (simp add: getRemainingTime_def rounding_host_def demo_host_def demo_state_def
      fractional_seconds_def round_def)

text \<open>
  C7, as the code has it. \<^verbatim>\<open>getRemainingTime\<close> throws a TypeError exactly when the
  start time is neither a string nor a number by its run-time type; a string that the
  host cannot parse is accepted. For a string or a number it throws an Error exactly
  when the time correction is not a number. The state is unchanged in every case.
\<close>

theorem getRemainingTime_errors:
  "(fst (getRemainingTime h now bt s) = Inl TypeError \<longleftrightarrow> \<not> is_string bt \<and> \<not> is_number bt)
   \<and> (is_string bt \<or> is_number bt \<longrightarrow>
        (fst (getRemainingTime h now bt s) = Inl Error \<longleftrightarrow> \<not> is_number (timeCorrection s)))
   \<and> snd (getRemainingTime h now bt s) = s"
  by (cases bt; cases "timeCorrection s") (simp_all add: getRemainingTime_def Let_def)

theorem getRemainingTime_errors_witness:
  "is_string (JStr ''soon'') \<and>
   fst (getRemainingTime demo_host 0 (JStr ''soon'') (demo_state\<lparr>timeCorrection := JNull\<rparr>)) =
     Inl Error \<and>
   fst (getRemainingTime demo_host 0 JNull demo_state) = Inl TypeError"
  using getRemainingTime_errors [of demo_host 0 "JStr ''soon''" "demo_state\<lparr>timeCorrection := JNull\<rparr>"]
    getRemainingTime_errors [of demo_host 0 JNull demo_state]
  by simp

text \<open>
  The string \<^verbatim>\<open>soon\<close> is not a date the host can parse and is not a number, yet with
  the time correction set the call returns 0 and throws no TypeError.
\<close>

theorem getRemainingTime_unparseable_counterexample:
  "dateParse demo_host ''soon'' = NaN \<and> \<not> is_number (JStr ''soon'') \<and>
   is_number (timeCorrection demo_state) \<and>
   fst (getRemainingTime demo_host 0 (JStr ''soon'') demo_state) = Inr (Num 0)"
  by (simp add: getRemainingTime_def demo_host_def demo_state_def)

section \<open>The configuration\<close>

lemma same_config_refl [simp]: "same_config s s"
  by (simp add: same_config_def)

lemma same_config_trans: "same_config s s1 \<Longrightarrow> same_config s1 s2 \<Longrightarrow> same_config s s2"
  by (simp add: same_config_def)

lemma same_config_DN_revoke [simp]: "same_config s (DN_revoke a s)"
  by (simp add: same_config_def DN_revoke_def)

lemma same_config_revoke_existing [simp]: "same_config s (revoke_existing c s)"
  by (simp add: revoke_existing_def split: option.splits)

lemma same_config_createNotification [simp]: "same_config s (snd (createNotification c r s))"
  by (simp add: same_config_def createNotification_def DN_new_def DN_show_def Let_def)

lemma same_config_set_notification [simp]: "same_config s (set_notification i a s)"
  by (simp add: same_config_def set_notification_def)

lemma getRemainingTime_eq: "getRemainingTime h now bt s = (fst (getRemainingTime h now bt s), s)"
  by (simp add: prod_eq_iff)

lemma same_config_notify [simp]: "same_config s (snd (notify h now i s))"
proof -
  have "same_config s (set_notification i a (snd (createNotification c r s)))" for a c r
    by (rule same_config_trans [OF same_config_createNotification same_config_set_notification])
  then show ?thesis
    unfolding notify_def
    by (subst getRemainingTime_eq)
       (auto split: option.splits sum.splits prod.splits simp: Let_def dest: sndI)
qed


lemma same_config_renotify [simp]: "same_config s (snd (renotify h now i c s))"
  by (simp add: renotify_def)

lemma same_config_updateNotifications_loop:
  "same_config s (snd (updateNotifications_loop h now is s))"
proof (induction "is" arbitrary: s)
  case Nil
  show ?case by simp
next
  case (Cons i "is")
  show ?case
  proof (cases "map_of (hash s) i")
    case None
    with Cons show ?thesis by simp
  next
    case (Some c)
    let ?s1 = "revoke_existing c s"
    obtain r s2 where r: "renotify h now i c ?s1 = (r, s2)"
      by (cases "renotify h now i c ?s1")
    have "same_config ?s1 s2"
      using same_config_renotify [of ?s1 h now i c] r by simp
    then have s2: "same_config s s2"
      using same_config_trans [OF same_config_revoke_existing] by blast
    show ?thesis
    proof (cases r)
      case (Inl e)
      with Some r s2 show ?thesis by simp
    next
      case (Inr u)
      with Some r have "updateNotifications_loop h now (i # is) s = updateNotifications_loop h now is s2"
        by simp
      with same_config_trans [OF s2 Cons.IH [of s2]] show ?thesis by simp
    qed
  qed
qed

lemma same_config_updateNotifications: "same_config s (snd (updateNotifications h now s))"
  by (simp add: updateNotifications_def same_config_updateNotifications_loop)

lemma setParams_config_fields:
  "rates (setParams_config p s) = (if truthy (p_rates p) then p_rates p else rates s)"
  "audio (setParams_config p s) =
     (if not_loosely_undefined (p_audio p) then truthy (p_audio p) else audio s)"
  "displayTime (setParams_config p s) =
     (case number_ge_0 (p_displayTime p) of Some n \<Rightarrow> n | None \<Rightarrow> displayTime s)"
  "delay (setParams_config p s) =
     (case number_ge_0 (p_delay p) of Some n \<Rightarrow> n | None \<Rightarrow> delay s)"
  "timeCorrection (setParams_config p s) = timeCorrection s"
  "hash (setParams_config p s) = hash s"
  "store (setParams_config p s) = store s"
  by (simp_all add: setParams_config_def setItem_def Let_def split: option.splits)

lemma setParams_config_storage:
  "storage (setParams_config p s) =
     (storage s)(''competition_delay'' \<mapsto> JNum (delay (setParams_config p s)),
                 ''competition_rates'' \<mapsto> rates (setParams_config p s),
                 ''competition_displayTime'' \<mapsto> JNum (displayTime (setParams_config p s)),
                 ''competition_audio'' \<mapsto> JBool (audio (setParams_config p s)))"
  by (simp add: setParams_config_def setItem_def Let_def split: option.splits)

text \<open>
  C10. After \<^verbatim>\<open>setParams\<close>, whether the reconciliation returns or throws: \<^verbatim>\<open>rates\<close> is
  the supplied value if that is truthy and is unchanged otherwise; \<^verbatim>\<open>audio\<close> is
  unchanged for \<^verbatim>\<open>undefined\<close> (and \<^verbatim>\<open>null\<close>) and is the truthiness of the supplied value
  otherwise; \<^verbatim>\<open>displayTime\<close> and \<^verbatim>\<open>delay\<close> take a supplied number that is at least 0 and
  are unchanged for any other value; the time correction is unchanged; and the storage
  holds the four resulting values under their keys, every other key as before.
\<close>

theorem setParams_fields:
  "let s' = snd (setParams h now p s) in
   rates s' = (if truthy (p_rates p) then p_rates p else rates s)
   \<and> audio s' = (if p_audio p = JUndefined \<or> p_audio p = JNull then audio s else truthy (p_audio p))
   \<and> displayTime s' =
       (case p_displayTime p of
          JNum (Num x) \<Rightarrow> if 0 \<le> x then Num x else displayTime s
        | _ \<Rightarrow> displayTime s)
   \<and> delay s' =
       (case p_delay p of JNum (Num x) \<Rightarrow> if 0 \<le> x then Num x else delay s | _ \<Rightarrow> delay s)
   \<and> timeCorrection s' = timeCorrection s
   \<and> storage s' =
       (storage s)(''competition_delay'' \<mapsto> JNum (delay s'),
                   ''competition_rates'' \<mapsto> rates s',
                   ''competition_displayTime'' \<mapsto> JNum (displayTime s'),
                   ''competition_audio'' \<mapsto> JBool (audio s'))"
proof -
  define s' where "s' = snd (setParams h now p s)"
  have sc: "same_config (setParams_config p s) s'"
    unfolding s'_def setParams_def by (rule same_config_updateNotifications)
  have a: "not_loosely_undefined v \<longleftrightarrow> \<not> (v = JUndefined \<or> v = JNull)" for v
    by (cases v) simp_all
  have n: "(case number_ge_0 v of Some n \<Rightarrow> n | None \<Rightarrow> d) =
      (case v of JNum (Num x) \<Rightarrow> if 0 \<le> x then Num x else d | _ \<Rightarrow> d)" for v d
    by (cases v) (auto split: jsnum.splits)
  from sc have eqs: "rates s' = rates (setParams_config p s)"
    "audio s' = audio (setParams_config p s)"
    "displayTime s' = displayTime (setParams_config p s)"
    "delay s' = delay (setParams_config p s)"
    "timeCorrection s' = timeCorrection (setParams_config p s)"
    "storage s' = storage (setParams_config p s)"
    by (simp_all add: same_config_def)
  have "rates s' = (if truthy (p_rates p) then p_rates p else rates s)
   \<and> audio s' = (if p_audio p = JUndefined \<or> p_audio p = JNull then audio s else truthy (p_audio p))
   \<and> displayTime s' =
       (case p_displayTime p of
          JNum (Num x) \<Rightarrow> if 0 \<le> x then Num x else displayTime s
        | _ \<Rightarrow> displayTime s)
   \<and> delay s' =
       (case p_delay p of JNum (Num x) \<Rightarrow> if 0 \<le> x then Num x else delay s | _ \<Rightarrow> delay s)
   \<and> timeCorrection s' = timeCorrection s
   \<and> storage s' =
       (storage s)(''competition_delay'' \<mapsto> JNum (delay s'),
                   ''competition_rates'' \<mapsto> rates s',
                   ''competition_displayTime'' \<mapsto> JNum (displayTime s'),
                   ''competition_audio'' \<mapsto> JBool (audio s'))"
    unfolding eqs
    by (simp only: setParams_config_fields setParams_config_storage [of p s] a n) simp
  then show ?thesis
    unfolding s'_def Let_def .
qed

theorem setParams_fields_witness:
  "(let s' = snd (setParams demo_host 1000000 demo_params demo_state) in
      rates s' = JArr [JNum (Num 3), JNum (Num 5)] \<and> audio s' = False \<and>
      displayTime s' = Num 0 \<and> delay s' = Num 60 \<and>
      storage s' ''competition_audio'' = Some (JBool False) \<and>
      storage s' ''competition_delay'' = Some (JNum (Num 60)))
   \<and> delay (snd (setParams demo_host 1000000 demo_params_delay0 demo_state)) = Num 0"
  using setParams_fields [of demo_host 1000000 demo_params demo_state]
    setParams_fields [of demo_host 1000000 demo_params_delay0 demo_state]
  by (simp add: Let_def demo_params_def demo_params_delay0_def demo_state_def)

section \<open>Eligibility and timing\<close>

lemma strict_equals_num_iff: "strict_equals_num x v \<longleftrightarrow> x = JNum (Num v)"
  by (cases "(x, v)" rule: strict_equals_num.cases) auto

lemma array_indexOf_from_range:
  "array_indexOf_from k xs v = - 1 \<or>
   (k \<le> array_indexOf_from k xs v \<and> array_indexOf_from k xs v < k + int (length xs))"
proof (induction xs arbitrary: k)
  case Nil
  show ?case by simp
next
  case (Cons x xs)
  from Cons [of "k + 1"] show ?case by auto
qed

lemma array_indexOf_from_miss:
  "0 \<le> k \<Longrightarrow> array_indexOf_from k xs v = - 1 \<longleftrightarrow> JNum (Num v) \<notin> set xs"
  by (induction xs arbitrary: k) (auto simp: strict_equals_num_iff)

lemma not_not_tilde_iff:
  assumes "- 1 \<le> k" "k < 2 ^ 32 - 1"
  shows "not_not_tilde k \<longleftrightarrow> k \<noteq> - 1"
proof (cases "k = - 1")
  case True
  then show ?thesis by (simp add: not_not_tilde_def)
next
  case False
  with assms have k: "0 \<le> k" "k < 2 ^ 32 - 1" by simp_all
  have "NOT (word_of_int k :: 32 word) = 0 \<longleftrightarrow> (word_of_int k :: 32 word) = - 1"
    by (metis bit.compl_zero bit.double_compl)
  also have "\<dots> \<longleftrightarrow> take_bit 32 k = take_bit 32 (- 1 :: int)"
    using word_of_int_eq_iff [of k "- 1", where 'a = 32] by simp
  also have "\<dots> \<longleftrightarrow> False"
    using k by (simp add: take_bit_eq_mod)
  finally show ?thesis using False by (simp add: not_not_tilde_def)
qed

lemma createNotification_fst [simp]: "fst (createNotification c r s) = length (store s)"
  by (simp add: createNotification_def DN_new_def Let_def)


lemma createNotification_eq:
  "createNotification c r s = (length (store s), snd (createNotification c r s))"
  by (simp add: prod_eq_iff)

lemma notify_unfold:
  "notify h now i s =
     (case map_of (hash s) i of
        None \<Rightarrow> (Inl TypeError, s)
      | Some c \<Rightarrow>
          (case fst (getRemainingTime h now (beginTime c) s) of
             Inl e \<Rightarrow> (Inl e, s)
           | Inr r \<Rightarrow>
               if js_gt (delay s) (Num 0) \<and> js_gt r (Num 0)
               then (case js_indexOf h (rates s) (ratingValue c) of
                       Inl e \<Rightarrow> (Inl e, s)
                     | Inr k \<Rightarrow>
                         if not_not_tilde k
                         then (Inr (), set_notification i (length (store s))
                                         (snd (createNotification c r s)))
                         else (Inr (), s))
               else (Inr (), s)))"
  unfolding notify_def
  apply (subst getRemainingTime_eq)
  apply (subst createNotification_eq)
  apply (simp split: option.splits sum.splits)
  done



lemma set_notification_store [simp]: "store (set_notification i a s) = store s"
  by (simp add: set_notification_def)

lemma createNotification_store:
  "\<exists>n. store (snd (createNotification c r s)) = store s @ [n] \<and> live n \<and>
       n_comp_id n = comp_id c \<and> n_rating n = ratingValue c"
  by (simp add: createNotification_def DN_new_def DN_show_def Let_def live_def)

lemma createNotification_hash [simp]: "hash (snd (createNotification c r s)) = hash s"
  by (simp add: createNotification_def DN_new_def DN_show_def Let_def)

lemma map_of_map_entry_same:
  "map_of al k = Some v \<Longrightarrow> map_of (AList.map_entry k f al) k = Some (f v)"
  by (simp add: map_of_map_entry)

text \<open>
  C2. For the competition \<open>c\<close> stored under \<open>i\<close> and an array of rates (an array has
  fewer than \<open>2 ^ 32\<close> elements), \<^verbatim>\<open>_notify\<close> creates a notification if and only if the
  delay is greater than 0, the remaining time is computed and is greater than 0, and the
  rating value of the competition is an element of the array. When it does, the new
  notification is live and the entry refers to it; when it does not, the state is
  unchanged. So a competition whose rating is not in the array gets no notification,
  whatever its start time is.
\<close>

theorem notify_arms_iff:
  assumes "map_of (hash s) i = Some c" and "rates s = JArr xs" and "length xs < 2 ^ 32"
  shows "(store (snd (notify h now i s)) \<noteq> store s \<longleftrightarrow>
            js_gt (delay s) (Num 0)
            \<and> (\<exists>r. fst (getRemainingTime h now (beginTime c) s) = Inr r \<and> js_gt r (Num 0))
            \<and> JNum (Num (of_int (ratingValue c))) \<in> set xs)
         \<and> (store (snd (notify h now i s)) \<noteq> store s \<longrightarrow>
              (\<exists>n. store (snd (notify h now i s)) = store s @ [n] \<and> live n \<and>
                   n_comp_id n = comp_id c \<and>
                   map_of (hash (snd (notify h now i s))) i =
                     Some (c\<lparr>notification := Some (length (store s))\<rparr>)))
         \<and> (store (snd (notify h now i s)) = store s \<longrightarrow> snd (notify h now i s) = s)"
proof -
  let ?k = "array_indexOf_from 0 xs (of_int (ratingValue c))"
  have idx: "js_indexOf h (rates s) (ratingValue c) = Inr ?k"
    using assms(2) by simp
  have "?k = - 1 \<or> (0 \<le> ?k \<and> ?k < int (length xs))"
    using array_indexOf_from_range [of 0 xs "of_int (ratingValue c)"] by simp
  moreover have "int (length xs) < 2 ^ 32"
    using assms(3) by (metis of_nat_less_iff of_nat_numeral of_nat_power)
  ultimately have "not_not_tilde ?k \<longleftrightarrow> ?k \<noteq> - 1"
    by (intro not_not_tilde_iff) auto
  then have mem: "not_not_tilde ?k \<longleftrightarrow> JNum (Num (of_int (ratingValue c))) \<in> set xs"
    using array_indexOf_from_miss [of 0 xs "of_int (ratingValue c)"] by simp
  show ?thesis
  proof (cases "fst (getRemainingTime h now (beginTime c) s)")
    case (Inl e)
    with assms(1) show ?thesis by (simp add: notify_unfold)
  next
    case (Inr r)
    show ?thesis
    proof (cases "js_gt (delay s) (Num 0) \<and> js_gt r (Num 0) \<and> not_not_tilde ?k")
      case False
      with assms(1) Inr idx mem show ?thesis by (auto simp: notify_unfold)
    next
      case True
      obtain n where n: "store (snd (createNotification c r s)) = store s @ [n]" "live n"
        "n_comp_id n = comp_id c"
        using createNotification_store by blast
      from True assms(1) Inr idx
      have nt: "snd (notify h now i s) =
          set_notification i (length (store s)) (snd (createNotification c r s))"
        by (simp add: notify_unfold)
      have "map_of (hash (snd (notify h now i s))) i = Some (c\<lparr>notification := Some (length (store s))\<rparr>)"
        unfolding nt using assms(1) by (simp add: set_notification_def map_of_map_entry)
      with True Inr mem n nt show ?thesis by simp
    qed
  qed
qed


theorem notify_arms_iff_witness:
  "map_of (hash demo_state) 7 = Some (snd (hd (hash demo_state))) \<and>
   rates demo_state = JArr [JNum (Num 3), JNum (Num 5)] \<and>
   length [JNum (Num 3), JNum (Num 5)] < (2::nat) ^ 32 \<and>
   store (snd (notify demo_host 1000000 7 demo_state)) \<noteq> store demo_state \<and>
   snd (notify demo_host 1000000 7 (demo_state\<lparr>rates := JArr [JNum (Num 5)]\<rparr>)) =
     demo_state\<lparr>rates := JArr [JNum (Num 5)]\<rparr>"
proof -
  have a: "map_of (hash demo_state) 7 = Some (snd (hd (hash demo_state)))"
    by (simp add: demo_state_def)
  have b: "rates demo_state = JArr [JNum (Num 3), JNum (Num 5)]"
    by (simp add: demo_state_def)
  have c: "length [JNum (Num 3), JNum (Num 5)] < (2::nat) ^ 32"
    by simp
  have a': "map_of (hash (demo_state\<lparr>rates := JArr [JNum (Num 5)]\<rparr>)) 7 =
      Some (snd (hd (hash demo_state)))"
    by (simp add: demo_state_def)
  have b': "rates (demo_state\<lparr>rates := JArr [JNum (Num 5)]\<rparr>) = JArr [JNum (Num 5)]"
    by simp
  have c': "length [JNum (Num 5)] < (2::nat) ^ 32"
    by simp
  have r: "fst (getRemainingTime demo_host 1000000 (JNum (Num 1300)) demo_state) = Inr (Num 300)"
    by (simp add: getRemainingTime_def demo_state_def demo_host_def)
  have "store (snd (notify demo_host 1000000 7 demo_state)) \<noteq> store demo_state"
    using notify_arms_iff [OF a b c, of demo_host 1000000] r
    by (simp add: demo_state_def) 
  moreover have "snd (notify demo_host 1000000 7 (demo_state\<lparr>rates := JArr [JNum (Num 5)]\<rparr>)) =
     demo_state\<lparr>rates := JArr [JNum (Num 5)]\<rparr>"
    using notify_arms_iff [OF a' b' c', of demo_host 1000000]
    by (simp add: demo_state_def)
  ultimately show ?thesis using a b c by simp
qed



section \<open>The full clear\<close>

lemma only_revokes_refl [simp]: "only_revokes s s"
  by (simp add: only_revokes_def)

lemma only_revokes_trans:
  assumes "only_revokes s s1" and "only_revokes s1 s2"
  shows "only_revokes s s2"
proof -
  have len: "length (store s1) = length (store s)" "length (store s2) = length (store s)"
    using assms by (simp_all add: only_revokes_def)
  have "store s2 ! a = store s ! a \<or> store s2 ! a = (store s ! a)\<lparr>n_revoked := True\<rparr>"
    if "a < length (store s)" for a
  proof -
    from that assms len
    have 1: "store s1 ! a = store s ! a \<or> store s1 ! a = (store s ! a)\<lparr>n_revoked := True\<rparr>"
      and 2: "store s2 ! a = store s1 ! a \<or> store s2 ! a = (store s1 ! a)\<lparr>n_revoked := True\<rparr>"
      by (simp_all add: only_revokes_def)
    then show ?thesis by auto
  qed
  with len show ?thesis by (simp add: only_revokes_def)
qed

lemma only_revokes_keeps:
  "only_revokes s s' \<Longrightarrow> a < length (store s) \<Longrightarrow> n_revoked (store s ! a) \<Longrightarrow>
   n_revoked (store s' ! a)"
  by (auto simp: only_revokes_def)

lemma only_revokes_hash [simp]: "only_revokes (s\<lparr>hash := x\<rparr>) s' = only_revokes s s'"
  "only_revokes s (s'\<lparr>hash := x\<rparr>) = only_revokes s s'"
  by (simp_all add: only_revokes_def)

lemma same_config_hash [simp]: "same_config (s\<lparr>hash := x\<rparr>) s' = same_config s s'"
  "same_config s (s'\<lparr>hash := x\<rparr>) = same_config s s'"
  by (simp_all add: same_config_def)

lemma DN_revoke_hash [simp]: "hash (DN_revoke a s) = hash s"
  by (simp add: DN_revoke_def)

lemma DN_revoke_only_revokes [simp]: "only_revokes s (DN_revoke a s)"
  by (auto simp: only_revokes_def DN_revoke_def nth_list_update)

lemma DN_revoke_revoked: "a < length (store s) \<Longrightarrow> n_revoked (store (DN_revoke a s) ! a)"
  by (simp add: DN_revoke_def)

lemma revoke_existing_hash [simp]: "hash (revoke_existing c s) = hash s"
  by (simp add: revoke_existing_def split: option.splits)

lemma revoke_existing_only_revokes [simp]: "only_revokes s (revoke_existing c s)"
  by (simp add: revoke_existing_def split: option.splits)

lemma revoke_existing_revoked:
  "notification c = Some a \<Longrightarrow> a < length (store s) \<Longrightarrow>
   n_revoked (store (revoke_existing c s) ! a)"
  by (simp add: revoke_existing_def DN_revoke_revoked)

lemma clearAll_loop_hash:
  "hash (clearAll_loop is s) = filter (\<lambda>p. fst p \<notin> set is) (hash s)"
proof (induction "is" arbitrary: s)
  case Nil
  show ?case by simp
next
  case (Cons i "is")
  show ?case
  proof (cases "map_of (hash s) i")
    case None
    then have "i \<notin> fst ` set (hash s)"
      by (simp add: map_of_eq_None_iff)
    then have "filter (\<lambda>p. fst p \<notin> set (i # is)) (hash s) = filter (\<lambda>p. fst p \<notin> set is) (hash s)"
      by (intro filter_cong) auto
    with None Cons show ?thesis by simp
  next
    case (Some c)
    have "filter (\<lambda>p. fst p \<notin> set is) (AList.delete i (hash s)) =
        filter (\<lambda>p. fst p \<notin> set (i # is)) (hash s)"
      by (auto simp: AList.delete_eq intro: filter_cong)
    with Some Cons show ?thesis by (simp add: Let_def)
  qed
qed

lemma clearAll_loop_frame:
  "same_config s (clearAll_loop is s) \<and> only_revokes s (clearAll_loop is s)"
proof (induction "is" arbitrary: s)
  case Nil
  show ?case by simp
next
  case (Cons i "is")
  show ?case
  proof (cases "map_of (hash s) i")
    case None
    with Cons show ?thesis by simp
  next
    case (Some c)
    let ?s2 = "(revoke_existing c s)\<lparr>hash := AList.delete i (hash (revoke_existing c s))\<rparr>"
    have "same_config s ?s2" "only_revokes s ?s2"
      by simp_all
    with Cons [of ?s2] have "same_config s (clearAll_loop is ?s2) \<and> only_revokes s (clearAll_loop is ?s2)"
      using same_config_trans only_revokes_trans by blast
    with Some show ?thesis by (simp add: Let_def)
  qed
qed

lemma clearAll_loop_revoked:
  assumes "k \<in> set is" and "map_of (hash s) k = Some c" and "notification c = Some a"
    and "a < length (store s)"
  shows "n_revoked (store (clearAll_loop is s) ! a)"
  using assms
proof (induction "is" arbitrary: s)
  case Nil
  then show ?case by simp
next
  case (Cons i "is")
  show ?case
  proof (cases "map_of (hash s) i")
    case None
    with Cons.prems have "k \<in> set is" by auto
    with Cons None show ?thesis by simp
  next
    case (Some ci)
    let ?s1 = "revoke_existing ci s"
    let ?s2 = "?s1\<lparr>hash := AList.delete i (hash ?s1)\<rparr>"
    have res: "clearAll_loop (i # is) s = clearAll_loop is ?s2"
      using Some by (simp add: Let_def)
    have len: "length (store ?s2) = length (store s)"
      using revoke_existing_only_revokes [of s ci] by (simp add: only_revokes_def)
    show ?thesis
    proof (cases "k = i")
      case True
      with Some Cons.prems have "ci = c" by simp
      with Cons.prems have "n_revoked (store ?s2 ! a)"
        by (simp add: revoke_existing_revoked)
      with len Cons.prems(4) show ?thesis
        unfolding res using only_revokes_keeps [of ?s2 "clearAll_loop is ?s2" a] clearAll_loop_frame
        by simp
    next
      case False
      with Cons.prems have "k \<in> set is" "map_of (hash ?s2) k = Some c"
        by simp_all
      with Cons.IH [of ?s2] Cons.prems len show ?thesis
        unfolding res by simp
    qed
  qed
qed

text \<open>
  C8, as the code has it. After \<^verbatim>\<open>teardown\<close> the table is empty, and every notification
  that an entry of the table referred to (when the base teardown had run) is revoked; the
  loop revokes the notification of an entry before it deletes the entry. Nothing else
  happens to the store, and the configuration is untouched: a notification whose entry
  was deleted before, as \<^verbatim>\<open>_clearStarted\<close> does without revoking, is not revoked. With two
  scheduled notifications in the table both are revoked and the table is empty.
\<close>

theorem teardown_clears:
  "hash (teardown base s) = []
   \<and> (\<forall>k c a. map_of (hash (base s)) k = Some c \<and> notification c = Some a \<and>
          a < length (store (base s)) \<longrightarrow> n_revoked (store (teardown base s) ! a))
   \<and> only_revokes (base s) (teardown base s)
   \<and> same_config (base s) (teardown base s)"
proof -
  have "hash (teardown base s) = []"
    by (simp add: teardown_def clearAll_def clearAll_loop_hash)
  moreover have "n_revoked (store (teardown base s) ! a)"
    if "map_of (hash (base s)) k = Some c" "notification c = Some a"
      "a < length (store (base s))" for k c a
  proof -
    from that(1) have "k \<in> set (map fst (hash (base s)))"
      by (metis map_of_eq_None_iff option.distinct(1) set_map)
    then show ?thesis
      unfolding teardown_def clearAll_def using that by (rule clearAll_loop_revoked)
  qed
  ultimately show ?thesis
    using clearAll_loop_frame by (auto simp: teardown_def clearAll_def)
qed

theorem teardown_clears_witness:
  "live (store demo_state ! 0) \<and> live (store demo_state ! 1) \<and>
   hash (teardown (\<lambda>s. s) demo_state) = [] \<and>
   n_revoked (store (teardown (\<lambda>s. s) demo_state) ! 0) \<and>
   n_revoked (store (teardown (\<lambda>s. s) demo_state) ! 1)"
proof -
  have e7: "map_of (hash demo_state) 7 = Some (snd (hd (hash demo_state))) \<and>
    notification (snd (hd (hash demo_state))) = Some 0 \<and> 0 < length (store demo_state)"
    by (simp add: demo_state_def)
  have e9: "map_of (hash demo_state) 9 = Some (snd (hd (tl (hash demo_state)))) \<and>
    notification (snd (hd (tl (hash demo_state)))) = Some 1 \<and> 1 < length (store demo_state)"
    by (simp add: demo_state_def)
  have lv: "live (store demo_state ! 0) \<and> live (store demo_state ! 1)"
    by (simp add: demo_state_def live_def)
  from teardown_clears [of "\<lambda>s. s" demo_state] e7 e9
  have "hash (teardown (\<lambda>s. s) demo_state) = [] \<and>
   n_revoked (store (teardown (\<lambda>s. s) demo_state) ! 0) \<and>
   n_revoked (store (teardown (\<lambda>s. s) demo_state) ! 1)"
    by blast
  with lv show ?thesis by simp
qed

text \<open>
  With the clock at 1299750 ms \<^verbatim>\<open>_clearStarted\<close> deletes the entry of competition 7 and
  leaves its notification scheduled; the teardown that follows empties the table and
  does not revoke that notification.
\<close>

theorem teardown_orphan_counterexample:
  "live (store demo_state ! 0) \<and>
   map_of (hash (snd (clearStarted demo_host 1299750 demo_state))) 7 = None \<and>
   hash (teardown (\<lambda>s. s) (snd (clearStarted demo_host 1299750 demo_state))) = [] \<and>
   live (store (teardown (\<lambda>s. s) (snd (clearStarted demo_host 1299750 demo_state))) ! 0)"
  by (simp add: demo_state_def demo_host_def clearStarted_def getRemainingTime_def
      teardown_def clearAll_def revoke_existing_def DN_revoke_def live_def)

section \<open>The selective prune\<close>

lemma getRemainingTime_returns:
  assumes "is_number (timeCorrection s)" and "is_string bt \<or> is_number bt"
  shows "\<exists>r. fst (getRemainingTime h now bt s) = Inr r"
  using assms
  by (cases bt; cases "timeCorrection s") (simp_all add: getRemainingTime_def Let_def)

lemma getRemainingTime_hash [simp]:
  "fst (getRemainingTime h now bt (s\<lparr>hash := x\<rparr>)) = fst (getRemainingTime h now bt s)"
  by (simp add: getRemainingTime_def Let_def split: option.splits jsval.splits)

lemma started_hash [simp]: "started h now (s\<lparr>hash := x\<rparr>) c = started h now s c"
  by (simp add: started_def)

lemma round_zero_iff:
  fixes d :: real
  assumes "0 < d"
  shows "\<lfloor>d / 1000 + 1 / 2\<rfloor> = 0 \<longleftrightarrow> d < 500"
  using assms by (auto simp: floor_eq_iff)

lemma started_iff_whole:
  assumes "ieee_rounding h" and "timeCorrection s = JNum (Num (of_int tc))"
    and "whole_ms h (beginTime c) t" and "safe_ms t n tc"
  shows "started h (of_int n) s c \<longleftrightarrow> t - (n + tc) < 500"
proof -
  from assms(3) have nn: "beginTime c \<noteq> JNull"
    by (auto simp: whole_ms_def)
  have v: "fst (getRemainingTime h (of_int n) (beginTime c) s) =
      Inr (Num (if 0 < t - (n + tc)
                then of_int \<lfloor>(of_int (t - (n + tc)) :: real) / 1000 + 1 / 2\<rfloor> else 0))"
    using assms by (rule getRemainingTime_whole)
  show ?thesis
  proof (cases "0 < t - (n + tc)")
    case True
    then have "0 < (of_int (t - (n + tc)) :: real)"
      by (simp only: of_int_0_less_iff)
    from round_zero_iff [OF this]
    have "\<lfloor>(of_int (t - (n + tc)) :: real) / 1000 + 1 / 2\<rfloor> = 0 \<longleftrightarrow> t - (n + tc) < 500"
      by (metis of_int_less_iff of_int_numeral)
    with True nn v show ?thesis
      by (simp add: started_def)
  next
    case False
    with nn v show ?thesis
      by (simp add: started_def)
  qed
qed

lemma started_iff_NaN:
  assumes "is_number (timeCorrection s)"
    and "beginTimestamp h (beginTime c) = Some NaN \<or>
         (timeCorrection s = JNum NaN \<and> beginTimestamp h (beginTime c) \<noteq> None)"
  shows "started h now s c"
proof -
  from assms(2) have "beginTime c \<noteq> JNull" by auto
  moreover from assms obtain ts tc where "beginTimestamp h (beginTime c) = Some ts"
    "timeCorrection s = JNum tc" "ts = NaN \<or> tc = NaN"
    by (cases "timeCorrection s") auto
  ultimately show ?thesis
    by (cases ts; cases tc) (auto simp: started_def getRemainingTime_def Let_def)
qed

lemma set_delete_subset: "set (AList.delete k al) \<subseteq> set al"
  by (induction al) auto

lemma delete_filter: "AList.delete k al = filter (\<lambda>(k', c). k' \<noteq> k) al"
  by (induction al) auto

lemma clearStarted_loop_filter:
  assumes "is_number (timeCorrection s)"
    and "\<forall>(k, c) \<in> set (hash s). beginTime_typed c"
    and "distinct (map fst (hash s))"
  shows "clearStarted_loop h now is s =
     (Inr (), s\<lparr>hash := filter (\<lambda>(k, c). \<not> (k \<in> set is \<and> started h now s c)) (hash s)\<rparr>)"
  using assms
proof (induction "is" arbitrary: s)
  case Nil
  then show ?case by simp
next
  case (Cons i "is")
  show ?case
  proof (cases "map_of (hash s) i")
    case None
    then have "i \<notin> fst ` set (hash s)"
      by (simp add: map_of_eq_None_iff)
    then have "filter (\<lambda>(k, c). \<not> (k \<in> set (i # is) \<and> started h now s c)) (hash s) =
        filter (\<lambda>(k, c). \<not> (k \<in> set is \<and> started h now s c)) (hash s)"
      by (intro filter_cong) (auto simp: rev_image_eqI)
    with None Cons.IH [OF Cons.prems] show ?thesis by simp
  next
    case (Some ci)
    then have mem: "(i, ci) \<in> set (hash s)"
      by (rule map_of_SomeD)
    have uniq: "c = ci" if "(i, c) \<in> set (hash s)" for c
      using map_of_is_SomeI [OF Cons.prems(3) that] Some by simp
    show ?thesis
    proof (cases "started h now s ci")
      case True
      let ?s2 = "s\<lparr>hash := AList.delete i (hash s)\<rparr>"
      from True obtain "beginTime ci \<noteq> JNull"
        "fst (getRemainingTime h now (beginTime ci) s) = Inr (Num 0)"
        by (simp add: started_def)
      then have "beginTime ci \<noteq> JNull"
        "getRemainingTime h now (beginTime ci) s = (Inr (Num 0), s)"
        by (simp_all add: prod_eq_iff)
      then have step: "clearStarted_loop h now (i # is) s = clearStarted_loop h now is ?s2"
        using Some by simp
      have p2: "is_number (timeCorrection ?s2)"
        "\<forall>(k, c) \<in> set (hash ?s2). beginTime_typed c"
        "distinct (map fst (hash ?s2))"
        using Cons.prems set_delete_subset [of i "hash s"]
        by (auto simp: distinct_delete)
      have "filter (\<lambda>(k, c). \<not> (k \<in> set is \<and> started h now s c)) (AList.delete i (hash s)) =
          filter (\<lambda>(k, c). \<not> (k \<in> set (i # is) \<and> started h now s c)) (hash s)"
        unfolding delete_filter filter_filter
        using True uniq by (intro filter_cong) auto
      with Cons.IH [OF p2] show ?thesis
        unfolding step by simp
    next
      case False
      have step: "clearStarted_loop h now (i # is) s = clearStarted_loop h now is s"
      proof (cases "beginTime ci = JNull")
        case True
        with Some show ?thesis by simp
      next
        case nn: False
        with Cons.prems(2) mem have "is_string (beginTime ci) \<or> is_number (beginTime ci)"
          by (auto simp: beginTime_typed_def)
        from getRemainingTime_returns [OF Cons.prems(1) this, of h now]
        obtain r where r: "fst (getRemainingTime h now (beginTime ci) s) = Inr r"
          by blast
        with False nn have "r \<noteq> Num 0"
          by (auto simp: started_def)
        moreover from r have "getRemainingTime h now (beginTime ci) s = (Inr r, s)"
          by (simp add: prod_eq_iff)
        ultimately show ?thesis
          using Some nn by simp
      qed
      have "filter (\<lambda>(k, c). \<not> (k \<in> set (i # is) \<and> started h now s c)) (hash s) =
          filter (\<lambda>(k, c). \<not> (k \<in> set is \<and> started h now s c)) (hash s)"
        using False uniq by (intro filter_cong) auto
      with Cons.IH [OF Cons.prems] show ?thesis
        unfolding step by simp
    qed
  qed
qed


text \<open>
  C4, as the code has it. The time correction is a number, every start time is \<^verbatim>\<open>null\<close>,
  a string or a number, and the keys are distinct. Then \<^verbatim>\<open>_clearStarted\<close> returns, and
  the state it leaves differs from the one it found only in the table, which has lost
  exactly the entries whose start time is not \<^verbatim>\<open>null\<close> and whose remaining time, in
  whole seconds, is 0; so no notification is revoked. When the host rounds to the nearest
  double and the start instant, the clock and the time correction are whole numbers of
  milliseconds of magnitude below \<open>2 ^ 53\<close>, such an entry is one whose start instant is
  less than 500 milliseconds after \<open>now + correction\<close>: the rounding to seconds makes an
  event that begins in less than half a second count as started. An entry whose start
  instant or whose time correction is \<open>NaN\<close> is deleted too.
\<close>

theorem clearStarted_prunes:
  assumes "is_number (timeCorrection s)"
    and "\<forall>(k, c) \<in> set (hash s). beginTime_typed c"
    and "distinct (map fst (hash s))"
  shows "clearStarted h now s =
           (Inr (), s\<lparr>hash := filter (\<lambda>(k, c). \<not> started h now s c) (hash s)\<rparr>)
         \<and> (ieee_rounding h \<longrightarrow>
              (\<forall>(k, c) \<in> set (hash s). \<forall>t n tc.
                 now = of_int n \<and> timeCorrection s = JNum (Num (of_int tc)) \<and>
                 whole_ms h (beginTime c) t \<and> safe_ms t n tc \<longrightarrow>
                   (started h now s c \<longleftrightarrow> t - (n + tc) < 500)))
         \<and> (\<forall>(k, c) \<in> set (hash s).
               beginTime c \<noteq> JNull \<and>
               (beginTimestamp h (beginTime c) = Some NaN \<or> timeCorrection s = JNum NaN) \<longrightarrow>
                 started h now s c)"
proof -
  have "filter (\<lambda>(k, c). \<not> (k \<in> set (map fst (hash s)) \<and> started h now s c)) (hash s) =
      filter (\<lambda>(k, c). \<not> started h now s c) (hash s)"
    by (intro filter_cong) (auto simp: rev_image_eqI)
  with clearStarted_loop_filter [OF assms, of h now "map fst (hash s)"]
  have 1: "clearStarted h now s =
      (Inr (), s\<lparr>hash := filter (\<lambda>(k, c). \<not> started h now s c) (hash s)\<rparr>)"
    by (simp add: clearStarted_def)
  have 2: "\<forall>(k, c) \<in> set (hash s). \<forall>t n tc.
      now = of_int n \<and> timeCorrection s = JNum (Num (of_int tc)) \<and>
      whole_ms h (beginTime c) t \<and> safe_ms t n tc \<longrightarrow>
        (started h now s c \<longleftrightarrow> t - (n + tc) < 500)"
    if "ieee_rounding h"
    using started_iff_whole [OF that] by blast
  have 3: "started h now s c"
    if "(k, c) \<in> set (hash s)" "beginTime c \<noteq> JNull"
      "beginTimestamp h (beginTime c) = Some NaN \<or> timeCorrection s = JNum NaN" for k c
  proof -
    from assms(2) that(1,2) have "is_string (beginTime c) \<or> is_number (beginTime c)"
      by (auto simp: beginTime_typed_def)
    then have "beginTimestamp h (beginTime c) \<noteq> None"
      by (cases "beginTime c") auto
    with that(3) show ?thesis
      by (intro started_iff_NaN [OF assms(1)]) auto
  qed
  from 1 2 3 show ?thesis by blast
qed

theorem clearStarted_prunes_witness:
  "is_number (timeCorrection demo_state) \<and>
   distinct (map fst (hash demo_state)) \<and>
   hash (snd (clearStarted demo_host 1299750 demo_state)) = tl (hash demo_state) \<and>
   store (snd (clearStarted demo_host 1299750 demo_state)) = store demo_state \<and>
   hash (snd (clearStarted demo_host 1299250 demo_state)) = hash demo_state"
proof -
  have a: "is_number (timeCorrection demo_state)"
    by (simp add: demo_state_def)
  have b: "\<forall>(k, c) \<in> set (hash demo_state). beginTime_typed c"
    by (simp add: demo_state_def beginTime_typed_def)
  have c: "distinct (map fst (hash demo_state))"
    by (simp add: demo_state_def)
  have f1: "filter (\<lambda>(k, c). \<not> started demo_host 1299750 demo_state c) (hash demo_state) =
      tl (hash demo_state)"
    by (simp add: demo_state_def demo_host_def started_def getRemainingTime_def)
  have f2: "filter (\<lambda>(k, c). \<not> started demo_host 1299250 demo_state c) (hash demo_state) =
      hash demo_state"
    by (simp add: demo_state_def demo_host_def started_def getRemainingTime_def)
  from clearStarted_prunes [OF a b c, of demo_host 1299750]
    clearStarted_prunes [OF a b c, of demo_host 1299250] f1 f2 a b c
  show ?thesis by simp
qed

text \<open>
  Competition 7 begins at 1300000 ms and the corrected clock reads 1299750 ms: its
  start instant is in the future, and its entry is deleted.
\<close>

theorem clearStarted_future_counterexample:
  "beginTime (snd (hd (hash demo_state))) = JNum (Num 1300) \<and>
   timeCorrection demo_state = JNum (Num 0) \<and>
   (1299750 :: real) + 0 < 1300 * 1000 \<and>
   map_of (hash demo_state) 7 = Some (snd (hd (hash demo_state))) \<and>
   map_of (hash (snd (clearStarted demo_host 1299750 demo_state))) 7 = None"
  by (simp add: demo_state_def demo_host_def clearStarted_def getRemainingTime_def)

section \<open>The hook before the display\<close>



section \<open>The reconciliation loop\<close>

lemma extends_refl [simp]: "extends s s"
  by (simp add: extends_def)

lemma extends_trans:
  assumes "extends s s1" and "extends s1 s2"
  shows "extends s s2"
proof -
  have len: "length (store s) \<le> length (store s1)" "length (store s1) \<le> length (store s2)"
    using assms by (simp_all add: extends_def)
  have "store s2 ! a = store s ! a \<or> store s2 ! a = (store s ! a)\<lparr>n_revoked := True\<rparr>"
    if "a < length (store s)" for a
  proof -
    from that len have "a < length (store s1)" by simp
    with that assms
    have 1: "store s1 ! a = store s ! a \<or> store s1 ! a = (store s ! a)\<lparr>n_revoked := True\<rparr>"
      and 2: "store s2 ! a = store s1 ! a \<or> store s2 ! a = (store s1 ! a)\<lparr>n_revoked := True\<rparr>"
      by (simp_all add: extends_def)
    then show ?thesis by auto
  qed
  with len show ?thesis by (simp add: extends_def)
qed

lemma only_revokes_extends: "only_revokes s s' \<Longrightarrow> extends s s'"
  by (simp add: only_revokes_def extends_def)

lemma extends_hash [simp]: "extends (s\<lparr>hash := x\<rparr>) s' = extends s s'"
  "extends s (s'\<lparr>hash := x\<rparr>) = extends s s'"
  by (simp_all add: extends_def)

lemma extends_keeps_revoked:
  "extends s s' \<Longrightarrow> a < length (store s) \<Longrightarrow> n_revoked (store s ! a) \<Longrightarrow>
   n_revoked (store s' ! a)"
  by (auto simp: extends_def)

lemma extends_live:
  "extends s s' \<Longrightarrow> a < length (store s) \<Longrightarrow> live (store s' ! a) \<Longrightarrow>
   live (store s ! a) \<and> n_comp_id (store s' ! a) = n_comp_id (store s ! a)"
  by (auto simp: extends_def live_def)

lemma extends_length: "extends s s' \<Longrightarrow> length (store s) \<le> length (store s')"
  by (simp add: extends_def)

lemma revoke_existing_extends [simp]: "extends s (revoke_existing c s)"
  by (simp add: only_revokes_extends)

lemma createNotification_extends [simp]: "extends s (snd (createNotification c r s))"
proof -
  obtain n where "store (snd (createNotification c r s)) = store s @ [n]"
    using createNotification_store by blast
  then show ?thesis by (simp add: extends_def nth_append)
qed

lemma set_notification_extends [simp]: "extends s (set_notification i a s') = extends s s'"
  by (simp add: set_notification_def)

text \<open>The two outcomes of \<^verbatim>\<open>_notify\<close>: nothing changes, or a notification is armed.\<close>

lemma notify_cases:
  obtains (same) "snd (notify h now i s) = s"
  | (armed) c r where "map_of (hash s) i = Some c"
      "fst (getRemainingTime h now (beginTime c) s) = Inr r" "eligible h now s c"
      "fst (notify h now i s) = Inr ()"
      "snd (notify h now i s) =
         set_notification i (length (store s)) (snd (createNotification c r s))"
proof (cases "snd (notify h now i s) = s")
  case True
  then show ?thesis by (rule same)
next
  case False
  then obtain c where c: "map_of (hash s) i = Some c"
    by (cases "map_of (hash s) i") (auto simp: notify_unfold)
  from False c obtain r where r: "fst (getRemainingTime h now (beginTime c) s) = Inr r"
    by (cases "fst (getRemainingTime h now (beginTime c) s)") (auto simp: notify_unfold)
  from False c r have gt: "js_gt (delay s) (Num 0)" "js_gt r (Num 0)"
    by (auto simp: notify_unfold split: if_splits)
  from False c r gt obtain k where k: "js_indexOf h (rates s) (ratingValue c) = Inr k"
    by (cases "js_indexOf h (rates s) (ratingValue c)") (auto simp: notify_unfold)
  from False c r gt k have nk: "not_not_tilde k"
    by (auto simp: notify_unfold split: if_splits)
  have "eligible h now s c"
    using r gt k nk by (simp add: eligible_def)
  moreover have "fst (notify h now i s) = Inr ()"
    "snd (notify h now i s) =
         set_notification i (length (store s)) (snd (createNotification c r s))"
    using c r gt k nk by (simp_all add: notify_unfold)
  ultimately show ?thesis using c r by (rule armed [rotated 2])
qed

lemma notify_extends [simp]: "extends s (snd (notify h now i s))"
  by (cases rule: notify_cases [of h now i s]) simp_all

lemma renotify_extends [simp]: "extends s (snd (renotify h now i c s))"
  by (simp add: renotify_def)


lemma only_revokes_live:
  "only_revokes s s' \<Longrightarrow> a < length (store s) \<Longrightarrow> live (store s' ! a) \<Longrightarrow>
   live (store s ! a) \<and> n_comp_id (store s' ! a) = n_comp_id (store s ! a)"
  by (auto simp: only_revokes_def live_def)

lemma only_revokes_one_live:
  assumes "only_revokes s s'" and "one_live_per_id s"
  shows "one_live_per_id s'"
proof -
  have len: "length (store s') = length (store s)"
    using assms(1) by (simp add: only_revokes_def)
  show ?thesis
    unfolding one_live_per_id_def len
  proof (intro allI impI)
    fix a b
    assume a: "a < length (store s)" and b: "b < length (store s)"
      and l: "live (store s' ! a) \<and> live (store s' ! b) \<and>
        n_comp_id (store s' ! a) = n_comp_id (store s' ! b)"
    from only_revokes_live [OF assms(1) a] only_revokes_live [OF assms(1) b] l
    have "live (store s ! a) \<and> live (store s ! b) \<and>
        n_comp_id (store s ! a) = n_comp_id (store s ! b)"
      by simp
    with assms(2) a b show "a = b"
      by (simp add: one_live_per_id_def)
  qed
qed

lemma only_revokes_owned:
  assumes "only_revokes s s'" and "hash s' = hash s" and "owned s"
  shows "owned s'"
proof -
  have len: "length (store s') = length (store s)"
    using assms(1) by (simp add: only_revokes_def)
  have "notification c = Some a"
    if "(k, c) \<in> set (hash s)" "a < length (store s)" "live (store s' ! a)"
      "n_comp_id (store s' ! a) = k" for k c a
  proof -
    from only_revokes_live [OF assms(1) that(2,3)] that(4)
    have "live (store s ! a) \<and> n_comp_id (store s ! a) = k"
      by simp
    with assms(3) that(1,2) show ?thesis
      by (auto simp: owned_def)
  qed
  then show ?thesis
    unfolding owned_def len assms(2) by blast
qed

text \<open>After the revocation no live notification is left for the id of the entry.\<close>

lemma revoke_existing_no_live:
  assumes "owned s" and "(i, c) \<in> set (hash s)"
    and "a < length (store s)" and "live (store (revoke_existing c s) ! a)"
  shows "n_comp_id (store (revoke_existing c s) ! a) \<noteq> i"
proof
  assume eq: "n_comp_id (store (revoke_existing c s) ! a) = i"
  from only_revokes_live [OF revoke_existing_only_revokes assms(3,4)] eq
  have l: "live (store s ! a)" "n_comp_id (store s ! a) = i"
    by simp_all
  with assms(1,2,3) have ref: "notification c = Some a"
    by (auto simp: owned_def)
  with assms(3) have "n_revoked (store (revoke_existing c s) ! a)"
    by (simp add: revoke_existing_revoked)
  with assms(4) show False by (simp add: live_def)
qed

lemma set_notification_hash:
  "hash (set_notification i a s) = AList.map_entry i (\<lambda>c. c\<lparr>notification := Some a\<rparr>) (hash s)"
  by (simp add: set_notification_def)

lemma map_fst_map_entry [simp]: "map fst (AList.map_entry k f al) = map fst al"
  by (induction al) auto

lemma set_map_entry:
  "(k, v) \<in> set (AList.map_entry i f al) \<Longrightarrow>
   (k \<noteq> i \<and> (k, v) \<in> set al) \<or> (k = i \<and> (\<exists>v0. (i, v0) \<in> set al \<and> (v = f v0 \<or> v = v0)))"
  by (induction al) (auto split: if_splits)

lemma set_map_entry_distinct:
  assumes "distinct (map fst al)" and "(k, v) \<in> set (AList.map_entry i f al)"
  shows "(k \<noteq> i \<and> (k, v) \<in> set al) \<or> (k = i \<and> (\<exists>v0. (i, v0) \<in> set al \<and> v = f v0))"
proof -
  from assms(1) have d: "distinct (map fst (AList.map_entry i f al))"
    by simp
  from assms(2) have m: "map_of (AList.map_entry i f al) k = Some v"
    using map_of_is_SomeI [OF d] by simp
  show ?thesis
  proof (cases "k = i")
    case True
    with m obtain v0 where "map_of al i = Some v0" "v = f v0"
      by (cases "map_of al i") (auto simp: map_of_map_entry)
    with True show ?thesis by (auto dest: map_of_SomeD)
  next
    case False
    with m have "map_of al k = Some v"
      by (simp add: map_of_map_entry)
    with False show ?thesis by (auto dest: map_of_SomeD)
  qed
qed


lemma engine_inv_revoke_existing:
  assumes "engine_inv s"
  shows "engine_inv (revoke_existing c s)"
  using assms only_revokes_one_live [OF revoke_existing_only_revokes]
    only_revokes_owned [OF revoke_existing_only_revokes revoke_existing_hash]
  by (simp add: engine_inv_def table_ok_def)

lemma engine_inv_notify:
  assumes inv: "engine_inv s"
    and nl: "\<forall>a < length (store s). live (store s ! a) \<longrightarrow> n_comp_id (store s ! a) \<noteq> i"
  shows "engine_inv (snd (notify h now i s))"
proof (cases rule: notify_cases [of h now i s])
  case same
  with inv show ?thesis by simp
next
  case (armed c r)
  let ?L = "length (store s)"
  let ?s2 = "snd (notify h now i s)"
  from inv have tab: "distinct (map fst (hash s))" "\<forall>(k, c) \<in> set (hash s). comp_id c = k"
    and ol: "one_live_per_id s" and ow: "owned s"
    by (simp_all add: engine_inv_def table_ok_def)
  from armed(1) have mem: "(i, c) \<in> set (hash s)"
    by (rule map_of_SomeD)
  with tab have cid: "comp_id c = i" by auto
  obtain n where n: "store (snd (createNotification c r s)) = store s @ [n]" "live n"
    "n_comp_id n = comp_id c"
    using createNotification_store by blast
  have st: "store ?s2 = store s @ [n]"
    unfolding armed(5) using n(1) by simp
  have hs: "hash ?s2 = AList.map_entry i (\<lambda>c. c\<lparr>notification := Some ?L\<rparr>) (hash s)"
    unfolding armed(5) by (simp add: set_notification_hash)
  have old: "store ?s2 ! a = store s ! a" if "a < ?L" for a
    using that st by (simp add: nth_append)
  have new: "store ?s2 ! ?L = n"
    using st by simp
  have len: "length (store ?s2) = Suc ?L"
    using st by simp
  have t2: "table_ok ?s2"
    unfolding table_ok_def hs using tab
    by (auto dest!: set_map_entry)
  have o2: "one_live_per_id ?s2"
    unfolding one_live_per_id_def len
  proof (intro allI impI)
    fix a b
    assume a: "a < Suc ?L" and b: "b < Suc ?L"
      and l: "live (store ?s2 ! a) \<and> live (store ?s2 ! b) \<and>
        n_comp_id (store ?s2 ! a) = n_comp_id (store ?s2 ! b)"
    show "a = b"
    proof (cases "a < ?L"; cases "b < ?L")
      assume "a < ?L" "b < ?L"
      with l ol show ?thesis
        by (simp add: old one_live_per_id_def)
    next
      assume "a < ?L" "\<not> b < ?L"
      with b have "b = ?L" by simp
      with l \<open>a < ?L\<close> new n cid nl show ?thesis
        by (auto simp: old)
    next
      assume "\<not> a < ?L" "b < ?L"
      with a have "a = ?L" by simp
      with l \<open>b < ?L\<close> new n cid nl show ?thesis
        by (auto simp: old)
    next
      assume "\<not> a < ?L" "\<not> b < ?L"
      with a b show ?thesis by simp
    qed
  qed
  have "notification c' = Some a"
    if "(k, c') \<in> set (hash ?s2)" "a < Suc ?L" "live (store ?s2 ! a)"
      "n_comp_id (store ?s2 ! a) = k" for k c' a
  proof -
    from set_map_entry_distinct [OF tab(1) that(1) [unfolded hs]]
    consider "k \<noteq> i" "(k, c') \<in> set (hash s)"
      | v0 where "k = i" "(i, v0) \<in> set (hash s)" "c' = v0\<lparr>notification := Some ?L\<rparr>"
      by blast
    then show ?thesis
    proof cases
      case 1
      have "a \<noteq> ?L"
        using that(4) 1(1) new n(3) cid by auto
      with that(2) have a: "a < ?L" by simp
      with that(3,4) have "live (store s ! a)" "n_comp_id (store s ! a) = k"
        by (simp_all add: old)
      with ow 1(2) a show ?thesis
        by (auto simp: owned_def)
    next
      case 2
      have "a = ?L"
      proof (rule ccontr)
        assume "a \<noteq> ?L"
        with that(2) have a: "a < ?L" by simp
        with that(3,4) 2(1) have "live (store s ! a)" "n_comp_id (store s ! a) = i"
          by (simp_all add: old)
        with nl a show False by simp
      qed
      with 2(3) show ?thesis by simp
    qed
  qed
  then have ow2: "owned ?s2"
    unfolding owned_def len by blast
  from t2 o2 ow2 show ?thesis
    by (simp add: engine_inv_def)
qed

lemma engine_inv_renotify:
  assumes "engine_inv s" and "map_of (hash s) i = Some c"
  shows "engine_inv (snd (renotify h now i c (revoke_existing c s)))"
proof -
  let ?s1 = "revoke_existing c s"
  from assms(1) have ow: "owned s" by (simp add: engine_inv_def)
  from assms(2) have mem: "(i, c) \<in> set (hash s)" by (rule map_of_SomeD)
  have len: "length (store ?s1) = length (store s)"
    using revoke_existing_only_revokes [of s c] by (simp add: only_revokes_def)
  have nl: "\<forall>a < length (store ?s1). live (store ?s1 ! a) \<longrightarrow> n_comp_id (store ?s1 ! a) \<noteq> i"
    unfolding len using revoke_existing_no_live [OF ow mem] by blast
  from engine_inv_notify [OF engine_inv_revoke_existing [OF assms(1)] nl]
    engine_inv_revoke_existing [OF assms(1)]
  show ?thesis
    by (simp add: renotify_def)
qed


lemma renotify_eq: "renotify h now i c s = (fst (renotify h now i c s), snd (renotify h now i c s))"
  by simp

lemma updateNotifications_loop_Cons:
  assumes "map_of (hash s) i = Some c"
  shows "updateNotifications_loop h now (i # is) s =
     (case fst (renotify h now i c (revoke_existing c s)) of
        Inl e \<Rightarrow> (Inl e, snd (renotify h now i c (revoke_existing c s)))
      | Inr u \<Rightarrow> updateNotifications_loop h now is (snd (renotify h now i c (revoke_existing c s))))"
  using assms
  by (cases "renotify h now i c (revoke_existing c s)") (simp split: sum.splits)

lemma updateNotifications_trace_Cons:
  assumes "map_of (hash s) i = Some c"
  shows "updateNotifications_trace h now (i # is) s =
     revoke_existing c s # snd (renotify h now i c (revoke_existing c s)) #
     (case fst (renotify h now i c (revoke_existing c s)) of
        Inl e \<Rightarrow> []
      | Inr u \<Rightarrow> updateNotifications_trace h now is (snd (renotify h now i c (revoke_existing c s))))"
  using assms
  by (cases "renotify h now i c (revoke_existing c s)") (simp split: sum.splits)

lemma updateNotifications_trace_inv:
  "engine_inv s \<Longrightarrow> t \<in> set (updateNotifications_trace h now is s) \<Longrightarrow> engine_inv t"
proof (induction "is" arbitrary: s)
  case Nil
  then show ?case by simp
next
  case (Cons i "is")
  show ?case
  proof (cases "map_of (hash s) i")
    case None
    with Cons show ?thesis by simp
  next
    case (Some c)
    let ?s1 = "revoke_existing c s"
    let ?s2 = "snd (renotify h now i c ?s1)"
    have i1: "engine_inv ?s1"
      using Cons.prems(1) by (rule engine_inv_revoke_existing)
    have i2: "engine_inv ?s2"
      using Cons.prems(1) Some by (rule engine_inv_renotify)
    from Cons.prems(2) consider "t = ?s1" | "t = ?s2"
      | "t \<in> set (updateNotifications_trace h now is ?s2)"
      unfolding updateNotifications_trace_Cons [OF Some]
      by (auto split: sum.splits)
    then show ?thesis
      using i1 i2 Cons.IH [OF i2] by cases simp_all
  qed
qed

lemma updateNotifications_trace_last:
  "last (s # updateNotifications_trace h now is s) = snd (updateNotifications_loop h now is s)"
proof (induction "is" arbitrary: s)
  case Nil
  show ?case by simp
next
  case (Cons i "is")
  show ?case
  proof (cases "map_of (hash s) i")
    case None
    with Cons [of s] show ?thesis by simp
  next
    case (Some c)
    let ?s2 = "snd (renotify h now i c (revoke_existing c s))"
    show ?thesis
    proof (cases "fst (renotify h now i c (revoke_existing c s))")
      case (Inl e)
      then show ?thesis
        unfolding updateNotifications_trace_Cons [OF Some] updateNotifications_loop_Cons [OF Some]
        by simp
    next
      case (Inr u)
      with Cons [of ?s2] show ?thesis
        unfolding updateNotifications_trace_Cons [OF Some] updateNotifications_loop_Cons [OF Some]
        by simp
    qed
  qed
qed


lemma same_config_well_typed:
  assumes "same_config s s'" and "\<forall>(k, c) \<in> set (hash s'). beginTime_typed c" and "well_typed s"
  shows "well_typed s'"
  using assms by (simp add: well_typed_def same_config_def)

lemma notify_typed:
  assumes "\<forall>(k, c) \<in> set (hash s). beginTime_typed c"
  shows "\<forall>(k, c) \<in> set (hash (snd (notify h now i s))). beginTime_typed c"
proof (cases rule: notify_cases [of h now i s])
  case same
  with assms show ?thesis by simp
next
  case (armed c r)
  show ?thesis
    unfolding armed(5) set_notification_hash createNotification_hash
    using assms by (auto dest!: set_map_entry simp: beginTime_typed_def)
qed

lemma well_typed_revoke_existing: "well_typed s \<Longrightarrow> well_typed (revoke_existing c s)"
  using same_config_revoke_existing [of s c]
  by (simp add: well_typed_def same_config_def)

lemma well_typed_notify: "well_typed s \<Longrightarrow> well_typed (snd (notify h now i s))"
  using same_config_notify [of s h now i] notify_typed [of s h now i]
  by (simp add: well_typed_def same_config_def)

lemma well_typed_renotify: "well_typed s \<Longrightarrow> well_typed (snd (renotify h now i c s))"
  by (simp add: renotify_def well_typed_notify)

lemma has_indexOf_returns: "has_indexOf v \<Longrightarrow> \<exists>k. js_indexOf h v rv = Inr k"
  by (cases v) simp_all

lemma notify_returns:
  assumes "well_typed s" and "map_of (hash s) i = Some c" and "beginTime c \<noteq> JNull"
  shows "fst (notify h now i s) = Inr ()"
proof -
  from assms(2) have "(i, c) \<in> set (hash s)" by (rule map_of_SomeD)
  with assms(1,3) have "is_string (beginTime c) \<or> is_number (beginTime c)"
    by (auto simp: well_typed_def beginTime_typed_def)
  with assms(1) obtain r where r: "fst (getRemainingTime h now (beginTime c) s) = Inr r"
    using getRemainingTime_returns [of s "beginTime c" h now] by (auto simp: well_typed_def)
  show ?thesis
  proof (cases "js_gt (delay s) (Num 0) \<and> js_gt r (Num 0)")
    case True
    with assms(1) obtain k where "js_indexOf h (rates s) (ratingValue c) = Inr k"
      using has_indexOf_returns [of "rates s" h "ratingValue c"] by (auto simp: well_typed_def)
    with assms(2) r True show ?thesis by (simp add: notify_unfold)
  next
    case False
    with assms(2) r show ?thesis by (auto simp: notify_unfold)
  qed
qed

lemma renotify_returns:
  assumes "well_typed s" and "map_of (hash s) i = Some c"
  shows "fst (renotify h now i c (revoke_existing c s)) = Inr ()"
proof (cases "beginTime c = JNull")
  case True
  then show ?thesis by (simp add: renotify_def)
next
  case False
  from notify_returns [OF well_typed_revoke_existing [OF assms(1)], of c i c h now] assms(2) False
  show ?thesis by (simp add: renotify_def)
qed

lemma updateNotifications_loop_returns:
  "well_typed s \<Longrightarrow> fst (updateNotifications_loop h now is s) = Inr ()"
proof (induction "is" arbitrary: s)
  case Nil
  show ?case by simp
next
  case (Cons i "is")
  show ?case
  proof (cases "map_of (hash s) i")
    case None
    with Cons show ?thesis by simp
  next
    case (Some c)
    have "well_typed (snd (renotify h now i c (revoke_existing c s)))"
      using Cons.prems by (intro well_typed_renotify well_typed_revoke_existing)
    with Cons.IH renotify_returns [OF Cons.prems Some, of h now] show ?thesis
      unfolding updateNotifications_loop_Cons [OF Some] by simp
  qed
qed

lemma updateNotifications_loop_extends: "extends s (snd (updateNotifications_loop h now is s))"
proof (induction "is" arbitrary: s)
  case Nil
  show ?case by simp
next
  case (Cons i "is")
  show ?case
  proof (cases "map_of (hash s) i")
    case None
    with Cons show ?thesis by simp
  next
    case (Some c)
    let ?s2 = "snd (renotify h now i c (revoke_existing c s))"
    have e: "extends s ?s2"
      by (rule extends_trans [OF revoke_existing_extends renotify_extends])
    show ?thesis
    proof (cases "fst (renotify h now i c (revoke_existing c s))")
      case (Inl x)
      with e show ?thesis
        unfolding updateNotifications_loop_Cons [OF Some] by simp
    next
      case (Inr u)
      with extends_trans [OF e Cons [of ?s2]] show ?thesis
        unfolding updateNotifications_loop_Cons [OF Some] by simp
    qed
  qed
qed

lemma notify_other_key:
  "k \<noteq> i \<Longrightarrow> map_of (hash (snd (notify h now i s))) k = map_of (hash s) k"
  by (cases rule: notify_cases [of h now i s])
     (simp_all add: set_notification_hash map_of_map_entry)

lemma renotify_other_key:
  "k \<noteq> i \<Longrightarrow> map_of (hash (snd (renotify h now i c (revoke_existing c s)))) k = map_of (hash s) k"
  by (simp add: renotify_def notify_other_key)

lemma updateNotifications_loop_revokes:
  assumes "well_typed s" and "k \<in> set is" and "map_of (hash s) k = Some c"
    and "notification c = Some a" and "a < length (store s)"
  shows "n_revoked (store (snd (updateNotifications_loop h now is s)) ! a)"
  using assms
proof (induction "is" arbitrary: s)
  case Nil
  then show ?case by simp
next
  case (Cons i "is")
  show ?case
  proof (cases "map_of (hash s) i")
    case None
    with Cons.prems have "k \<in> set is" by auto
    with Cons None show ?thesis by simp
  next
    case (Some ci)
    let ?s1 = "revoke_existing ci s"
    let ?s2 = "snd (renotify h now i ci ?s1)"
    have res: "updateNotifications_loop h now (i # is) s = updateNotifications_loop h now is ?s2"
      unfolding updateNotifications_loop_Cons [OF Some]
      using renotify_returns [OF Cons.prems(1) Some, of h now] by simp
    have wt: "well_typed ?s2"
      using Cons.prems(1) by (intro well_typed_renotify well_typed_revoke_existing)
    have e: "extends s ?s2"
      by (rule extends_trans [OF revoke_existing_extends renotify_extends])
    then have len: "a < length (store ?s2)"
      using Cons.prems(5) by (simp add: extends_def)
    show ?thesis
    proof (cases "k = i")
      case True
      with Some Cons.prems have "ci = c" by simp
      with Cons.prems have r1: "n_revoked (store ?s1 ! a)"
        by (simp add: revoke_existing_revoked)
      have "a < length (store ?s1)"
        using Cons.prems(5) extends_length [OF revoke_existing_extends [of s ci]] by simp
      with r1 have "n_revoked (store ?s2 ! a)"
        using extends_keeps_revoked [OF renotify_extends] by blast
      with len show ?thesis
        unfolding res
        using extends_keeps_revoked [OF updateNotifications_loop_extends] by blast
    next
      case False
      with Cons.prems have "k \<in> set is" "map_of (hash ?s2) k = Some c"
        by (simp_all add: renotify_other_key)
      with Cons.IH [OF wt _ _ Cons.prems(4) len] show ?thesis
        unfolding res by simp
    qed
  qed
qed

lemma notify_delay_0: "\<not> js_gt (delay s) (Num 0) \<Longrightarrow> snd (notify h now i s) = s"
  by (cases rule: notify_cases [of h now i s]) (simp_all add: eligible_def)

lemma updateNotifications_loop_delay_0:
  "\<not> js_gt (delay s) (Num 0) \<Longrightarrow>
   only_revokes s (snd (updateNotifications_loop h now is s)) \<and>
   hash (snd (updateNotifications_loop h now is s)) = hash s"
proof (induction "is" arbitrary: s)
  case Nil
  show ?case by simp
next
  case (Cons i "is")
  show ?case
  proof (cases "map_of (hash s) i")
    case None
    with Cons show ?thesis by simp
  next
    case (Some c)
    let ?s1 = "revoke_existing c s"
    have d1: "\<not> js_gt (delay ?s1) (Num 0)"
      using Cons.prems same_config_revoke_existing [of s c] by (simp add: same_config_def)
    then have s2: "snd (renotify h now i c ?s1) = ?s1"
      by (simp add: renotify_def notify_delay_0)
    have o1: "only_revokes s ?s1" "hash ?s1 = hash s"
      by simp_all
    show ?thesis
    proof (cases "fst (renotify h now i c ?s1)")
      case (Inl e)
      with s2 o1 show ?thesis
        unfolding updateNotifications_loop_Cons [OF Some] by simp
    next
      case (Inr u)
      with s2 o1 Cons.IH [OF d1] only_revokes_trans [OF o1(1)] show ?thesis
        unfolding updateNotifications_loop_Cons [OF Some] by simp
    qed
  qed
qed


section \<open>The references of the entries\<close>

lemma getRemainingTime_config:
  "timeCorrection s' = timeCorrection s \<Longrightarrow>
   fst (getRemainingTime h now bt s') = fst (getRemainingTime h now bt s)"
  by (simp add: getRemainingTime_def Let_def split: option.splits jsval.splits)

lemma eligible_same_config:
  "same_config s s' \<Longrightarrow> eligible h now s' c = eligible h now s c"
  using getRemainingTime_config [of s' s h now "beginTime c"]
  by (simp add: eligible_def same_config_def)

lemma eligible_notification [simp]:
  "eligible h now s (c\<lparr>notification := x\<rparr>) = eligible h now s c"
  by (simp add: eligible_def)

lemma getRemainingTime_not_null:
  "fst (getRemainingTime h now bt s) = Inr r \<Longrightarrow> bt \<noteq> JNull"
  by (auto simp: getRemainingTime_def)

lemma eligible_not_null: "eligible h now s c \<Longrightarrow> beginTime c \<noteq> JNull"
  by (auto simp: eligible_def getRemainingTime_def)

lemma revoke_existing_length [simp]: "length (store (revoke_existing c s)) = length (store s)"
  using revoke_existing_only_revokes [of s c] by (simp add: only_revokes_def)

lemma refs_valid_revoke_existing: "refs_valid s \<Longrightarrow> refs_valid (revoke_existing c s)"
  by (simp add: refs_valid_def)

lemma null_unarmed_revoke_existing: "null_unarmed s \<Longrightarrow> null_unarmed (revoke_existing c s)"
  by (simp add: null_unarmed_def)

lemma notify_keys [simp]: "map fst (hash (snd (notify h now i s))) = map fst (hash s)"
  by (cases rule: notify_cases [of h now i s]) (simp_all add: set_notification_hash)

lemma renotify_keys [simp]: "map fst (hash (snd (renotify h now i c s))) = map fst (hash s)"
  by (simp add: renotify_def)

lemma refs_valid_notify:
  assumes "refs_valid s"
  shows "refs_valid (snd (notify h now i s))"
proof (cases rule: notify_cases [of h now i s])
  case same
  with assms show ?thesis by simp
next
  case (armed c r)
  obtain n where n: "store (snd (createNotification c r s)) = store s @ [n]"
    using createNotification_store by blast
  show ?thesis
    unfolding armed(5) refs_valid_def set_notification_hash createNotification_hash
    using assms n by (auto dest!: set_map_entry simp: refs_valid_def less_Suc_eq)
qed

lemma null_unarmed_notify:
  assumes "null_unarmed s" and "distinct (map fst (hash s))"
  shows "null_unarmed (snd (notify h now i s))"
proof (cases rule: notify_cases [of h now i s])
  case same
  with assms show ?thesis by simp
next
  case (armed c r)
  from armed(2) have nn: "beginTime c \<noteq> JNull"
    by (rule getRemainingTime_not_null)
  have "notification c' = None"
    if "(k, c') \<in> set (AList.map_entry i (\<lambda>c. c\<lparr>notification := Some (length (store s))\<rparr>) (hash s))"
      "beginTime c' = JNull" for k c'
  proof -
    from set_map_entry_distinct [OF assms(2) that(1)]
    consider "(k, c') \<in> set (hash s)"
      | v0 where "(i, v0) \<in> set (hash s)" "c' = v0\<lparr>notification := Some (length (store s))\<rparr>"
      by blast
    then show ?thesis
    proof cases
      case 1
      with assms(1) that(2) show ?thesis by (auto simp: null_unarmed_def)
    next
      case 2
      from map_of_is_SomeI [OF assms(2) 2(1)] armed(1) have "v0 = c" by simp
      with 2(2) that(2) nn show ?thesis by simp
    qed
  qed
  then show ?thesis
    unfolding armed(5) null_unarmed_def set_notification_hash createNotification_hash
    by blast
qed

text \<open>What holds of the table in every state of the reconciliation.\<close>

lemma updateNotifications_loop_table:
  assumes "distinct (map fst (hash s))" and "refs_valid s" and "null_unarmed s"
  shows "map fst (hash (snd (updateNotifications_loop h now is s))) = map fst (hash s) \<and>
     refs_valid (snd (updateNotifications_loop h now is s)) \<and>
     null_unarmed (snd (updateNotifications_loop h now is s))"
  using assms
proof (induction "is" arbitrary: s)
  case Nil
  then show ?case by simp
next
  case (Cons i "is")
  show ?case
  proof (cases "map_of (hash s) i")
    case None
    with Cons show ?thesis by simp
  next
    case (Some c)
    let ?s1 = "revoke_existing c s"
    let ?s2 = "snd (renotify h now i c ?s1)"
    have d1: "distinct (map fst (hash ?s1))"
      using Cons.prems(1) by simp
    have k2: "map fst (hash ?s2) = map fst (hash s)"
      by simp
    have r2: "refs_valid ?s2"
      using Cons.prems(2)
      by (simp add: renotify_def refs_valid_notify refs_valid_revoke_existing)
    have n2: "null_unarmed ?s2"
      using Cons.prems(3) d1
      by (simp add: renotify_def null_unarmed_notify null_unarmed_revoke_existing)
    show ?thesis
    proof (cases "fst (renotify h now i c ?s1)")
      case (Inl e)
      with k2 r2 n2 show ?thesis
        unfolding updateNotifications_loop_Cons [OF Some] by simp
    next
      case (Inr u)
      from Cons.IH [OF _ r2 n2] Cons.prems(1) k2 Inr show ?thesis
        unfolding updateNotifications_loop_Cons [OF Some] by simp
    qed
  qed
qed

lemma updateNotifications_loop_other_key:
  "k \<notin> set is \<Longrightarrow> map_of (hash (snd (updateNotifications_loop h now is s))) k = map_of (hash s) k"
proof (induction "is" arbitrary: s)
  case Nil
  show ?case by simp
next
  case (Cons i "is")
  then have ki: "k \<noteq> i" and kis: "k \<notin> set is" by simp_all
  show ?case
  proof (cases "map_of (hash s) i")
    case None
    with Cons.IH [OF kis] show ?thesis by simp
  next
    case (Some c)
    let ?s2 = "snd (renotify h now i c (revoke_existing c s))"
    have "map_of (hash ?s2) k = map_of (hash s) k"
      using ki by (rule renotify_other_key)
    with Cons.IH [OF kis, of ?s2] show ?thesis
      unfolding updateNotifications_loop_Cons [OF Some] by (simp split: sum.splits)
  qed
qed


lemma updateNotifications_loop_live:
  assumes "refs_valid s" and "fst (updateNotifications_loop h now is s) = Inr ()"
    and "k \<in> set is"
    and "map_of (hash (snd (updateNotifications_loop h now is s))) k = Some c"
    and "notification c = Some a"
    and "live (store (snd (updateNotifications_loop h now is s)) ! a)"
  shows "length (store s) \<le> a \<and> eligible h now s c"
  using assms
proof (induction "is" arbitrary: s)
  case Nil
  then show ?case by simp
next
  case (Cons i "is")
  show ?case
  proof (cases "map_of (hash s) i")
    case None
    then have res: "updateNotifications_loop h now (i # is) s = updateNotifications_loop h now is s"
      by simp
    show ?thesis
    proof (cases "k \<in> set is")
      case True
      with Cons.IH [of s] Cons.prems show ?thesis
        unfolding res by simp
    next
      case False
      with Cons.prems(3) have "k = i" by simp
      with False Cons.prems(4) None show ?thesis
        unfolding res by (simp add: updateNotifications_loop_other_key)
    qed
  next
    case (Some ci)
    let ?s1 = "revoke_existing ci s"
    let ?s2 = "snd (renotify h now i ci ?s1)"
    let ?s' = "snd (updateNotifications_loop h now is ?s2)"
    from Cons.prems(2) have ret: "fst (updateNotifications_loop h now is ?s2) = Inr ()"
      and res: "updateNotifications_loop h now (i # is) s = updateNotifications_loop h now is ?s2"
      unfolding updateNotifications_loop_Cons [OF Some] by (auto split: sum.splits)
    have r2: "refs_valid ?s2"
      using Cons.prems(1)
      by (simp add: renotify_def refs_valid_notify refs_valid_revoke_existing)
    have sc: "same_config s ?s2"
      by (rule same_config_trans [OF same_config_revoke_existing same_config_renotify])
    have ex: "extends s ?s2"
      by (rule extends_trans [OF revoke_existing_extends renotify_extends])
    show ?thesis
    proof (cases "k \<in> set is")
      case True
      from Cons.IH [OF r2 ret True] Cons.prems(4,5,6)
      have "length (store ?s2) \<le> a \<and> eligible h now ?s2 c"
        unfolding res by simp
      with extends_length [OF ex] eligible_same_config [OF sc] show ?thesis
        by simp
    next
      case False
      with Cons.prems(3) have ki: "k = i" by simp
      from False ki Cons.prems(4) have c2: "map_of (hash ?s2) i = Some c"
        unfolding res by (simp add: updateNotifications_loop_other_key)
      have h1: "map_of (hash ?s1) i = Some ci"
        using Some by simp
      show ?thesis
      proof (cases "?s2 = ?s1")
        case True
        with c2 h1 have "c = ci" by simp
        with Cons.prems(5) have ref: "notification ci = Some a" by simp
        from Some have "(i, ci) \<in> set (hash s)" by (rule map_of_SomeD)
        with Cons.prems(1) ref have a: "a < length (store s)"
          by (auto simp: refs_valid_def)
        with ref have "n_revoked (store ?s1 ! a)"
          by (simp add: revoke_existing_revoked)
        moreover have "extends ?s1 ?s'"
          using True updateNotifications_loop_extends [of ?s2 h now "is"] by simp
        ultimately have "n_revoked (store ?s' ! a)"
          using a by (intro extends_keeps_revoked [of ?s1 ?s' a]) simp_all
        with Cons.prems(6) show ?thesis
          unfolding res by (simp add: live_def)
      next
        case False
        then have ne: "snd (notify h now i ?s1) \<noteq> ?s1" and rn: "?s2 = snd (notify h now i ?s1)"
          by (auto simp: renotify_def split: if_splits)
        from ne obtain c' r where arm: "map_of (hash ?s1) i = Some c'" "eligible h now ?s1 c'"
          "snd (notify h now i ?s1) =
             set_notification i (length (store ?s1)) (snd (createNotification c' r ?s1))"
          by (cases rule: notify_cases [of h now i ?s1]) auto
        from arm(1) h1 have "c' = ci" by simp
        with arm(3) rn h1 have "map_of (hash ?s2) i =
            Some (ci\<lparr>notification := Some (length (store s))\<rparr>)"
          by (simp add: set_notification_hash map_of_map_entry)
        with c2 have c: "c = ci\<lparr>notification := Some (length (store s))\<rparr>"
          by simp
        with Cons.prems(5) have "a = length (store s)" by simp
        moreover have "same_config s ?s1"
          by simp
        then have "eligible h now ?s1 ci = eligible h now s ci"
          by (rule eligible_same_config)
        with arm(2) \<open>c' = ci\<close> c have "eligible h now s c"
          by simp
        ultimately show ?thesis by simp
      qed
    qed
  qed
qed

text \<open>
  C6, as the code has it. The keys are distinct, every reference is an address of the
  store and an entry with a \<^verbatim>\<open>null\<close> start time holds no reference. After \<^verbatim>\<open>setParams\<close>,
  whether it returns or throws, both still hold: an entry holds a reference only if its
  start time is not \<^verbatim>\<open>null\<close>. The reference is not cleared when the notification is
  revoked, so it may point to a revoked notification. When the call returns, an entry
  refers to a live notification only if that notification was created during the call,
  the start time is not \<^verbatim>\<open>null\<close> and the condition of \<^verbatim>\<open>_notify\<close> holds for the entry.
\<close>

theorem setParams_references:
  assumes "distinct (map fst (hash s))" and "refs_valid s" and "null_unarmed s"
  shows "null_unarmed (snd (setParams h now p s))
     \<and> refs_valid (snd (setParams h now p s))
     \<and> (fst (setParams h now p s) = Inr () \<longrightarrow>
          (\<forall>(k, c) \<in> set (hash (snd (setParams h now p s))).
             \<forall>a. notification c = Some a \<and> live (store (snd (setParams h now p s)) ! a) \<longrightarrow>
                 length (store s) \<le> a \<and> beginTime c \<noteq> JNull \<and>
                 eligible h now (snd (setParams h now p s)) c))"
proof -
  let ?s1 = "setParams_config p s"
  let ?ks = "map fst (hash ?s1)"
  let ?s' = "snd (setParams h now p s)"
  have s': "?s' = snd (updateNotifications_loop h now ?ks ?s1)"
    by (simp add: setParams_def updateNotifications_def)
  have hs: "hash ?s1 = hash s" and st: "store ?s1 = store s"
    by (simp_all add: setParams_config_fields)
  have p1: "distinct (map fst (hash ?s1))" "refs_valid ?s1" "null_unarmed ?s1"
    using assms by (simp_all add: refs_valid_def null_unarmed_def hs st)
  from updateNotifications_loop_table [OF p1, of h now ?ks]
  have tab: "map fst (hash ?s') = ?ks" "refs_valid ?s'" "null_unarmed ?s'"
    unfolding s' by simp_all
  have sc: "same_config ?s1 ?s'"
    unfolding s' by (rule same_config_updateNotifications_loop)
  have "length (store s) \<le> a \<and> beginTime c \<noteq> JNull \<and> eligible h now ?s' c"
    if ret: "fst (setParams h now p s) = Inr ()" and kc: "(k, c) \<in> set (hash ?s')"
      and ref: "notification c = Some a" and lv: "live (store ?s' ! a)" for k c a
  proof -
    from tab(1) p1(1) have "distinct (map fst (hash ?s'))" by simp
    from map_of_is_SomeI [OF this kc] have m: "map_of (hash ?s') k = Some c" .
    from kc have "k \<in> set (map fst (hash ?s'))" by force
    with tab(1) have k: "k \<in> set ?ks" by simp
    from ret have ret': "fst (updateNotifications_loop h now ?ks ?s1) = Inr ()"
      by (simp add: setParams_def updateNotifications_def)
    from updateNotifications_loop_live [OF p1(2) ret' k m [unfolded s'] ref lv [unfolded s']]
    have "length (store s) \<le> a" "eligible h now ?s1 c"
      by (simp_all add: st)
    with eligible_same_config [OF sc, of h now c] eligible_not_null [of h now ?s' c]
    show ?thesis by simp
  qed
  with tab(2,3) show ?thesis by blast
qed

lemma demo_setParams_run:
  "fst (setParams demo_host 1000000 demo_params demo_state) = Inr () \<and>
   hash (snd (setParams demo_host 1000000 demo_params demo_state)) =
     [(7, \<lparr>comp_id = 7, ratingValue = 3, beginTime = JNum (Num 1300), notification = Some 2\<rparr>),
      (9, \<lparr>comp_id = 9, ratingValue = 5, beginTime = JNum (Num 1400), notification = Some 3\<rparr>)] \<and>
   store (snd (setParams demo_host 1000000 demo_params demo_state)) ! 2 =
     \<lparr>n_comp_id = 7, n_rating = 3, n_displayTime = None, n_shown = Some (Num 240),
      n_revoked = False\<rparr>"
  by (simp add: setParams_def setParams_config_def setItem_def updateNotifications_def
      revoke_existing_def DN_revoke_def renotify_def notify_unfold getRemainingTime_def
      createNotification_def DN_new_def DN_show_def set_notification_def not_not_tilde_def
      demo_host_def demo_state_def demo_params_def Let_def)

lemma demo_state_refs: "refs_valid demo_state \<and> null_unarmed demo_state"
  by (simp add: refs_valid_def null_unarmed_def demo_state_def)

theorem setParams_references_witness:
  "distinct (map fst (hash demo_state)) \<and>
   fst (setParams demo_host 1000000 demo_params demo_state) = Inr () \<and>
   notification (snd (hd (hash (snd (setParams demo_host 1000000 demo_params demo_state))))) =
     Some 2 \<and>
   live (store (snd (setParams demo_host 1000000 demo_params demo_state)) ! 2) \<and>
   length (store demo_state) \<le> 2 \<and>
   beginTime (snd (hd (hash (snd (setParams demo_host 1000000 demo_params demo_state))))) \<noteq> JNull"
proof -
  let ?s' = "snd (setParams demo_host 1000000 demo_params demo_state)"
  have d: "distinct (map fst (hash demo_state))"
    by (simp add: demo_state_def)
  from demo_setParams_run have ret: "fst (setParams demo_host 1000000 demo_params demo_state) = Inr ()"
    and mem: "(7, snd (hd (hash ?s'))) \<in> set (hash ?s')"
    and ref: "notification (snd (hd (hash ?s'))) = Some 2"
    and lv: "live (store ?s' ! 2)"
    by (simp_all add: live_def)
  from setParams_references [OF d, of demo_host 1000000 demo_params] demo_state_refs ret
  have "\<forall>(k, c) \<in> set (hash ?s').
      \<forall>a. notification c = Some a \<and> live (store ?s' ! a) \<longrightarrow>
        length (store demo_state) \<le> a \<and> beginTime c \<noteq> JNull \<and> eligible demo_host 1000000 ?s' c"
    by blast
  with mem ref lv have "length (store demo_state) \<le> 2 \<and> beginTime (snd (hd (hash ?s'))) \<noteq> JNull"
    by fastforce
  with d ret ref lv show ?thesis by simp
qed

text \<open>
  Setting the delay to 0 revokes the live notification of competition 7 and arms no new
  one; the entry keeps its reference, now to a revoked notification.
\<close>

theorem reference_to_revoked_counterexample:
  "live (store demo_state ! 0) \<and>
   map_of (hash (snd (setParams demo_host 1000000 demo_params_delay0 demo_state))) 7 =
     Some \<lparr>comp_id = 7, ratingValue = 3, beginTime = JNum (Num 1300), notification = Some 0\<rparr> \<and>
   n_revoked (store (snd (setParams demo_host 1000000 demo_params_delay0 demo_state)) ! 0)"
  by (simp add: setParams_def setParams_config_def setItem_def updateNotifications_def
      revoke_existing_def DN_revoke_def renotify_def notify_unfold getRemainingTime_def
      demo_host_def demo_state_def demo_params_delay0_def Let_def live_def)

section \<open>Reconciliation\<close>

lemma revoke_existing_cell:
  "notification c \<noteq> Some b \<Longrightarrow> store (revoke_existing c s) ! b = store s ! b"
  by (cases "notification c") (auto simp: revoke_existing_def DN_revoke_def)

lemma notify_cell: "b < length (store s) \<Longrightarrow> store (snd (notify h now i s)) ! b = store s ! b"
proof (cases rule: notify_cases [of h now i s])
  case same
  then show ?thesis by simp
next
  case (armed c r)
  obtain n where "store (snd (createNotification c r s)) = store s @ [n]"
    using createNotification_store by blast
  then show "b < length (store s) \<Longrightarrow> ?thesis"
    unfolding armed(5) by (simp add: nth_append)
qed

lemma renotify_cell:
  "b < length (store s) \<Longrightarrow> store (snd (renotify h now i c s)) ! b = store s ! b"
  by (simp add: renotify_def notify_cell)

text \<open>The loop leaves alone an object that no entry to be visited refers to.\<close>

lemma updateNotifications_loop_cell:
  assumes "b < length (store s)" and "distinct is"
    and "\<forall>k \<in> set is. \<forall>c. map_of (hash s) k = Some c \<longrightarrow> notification c \<noteq> Some b"
  shows "store (snd (updateNotifications_loop h now is s)) ! b = store s ! b"
  using assms
proof (induction "is" arbitrary: s)
  case Nil
  show ?case by simp
next
  case (Cons i "is")
  from Cons.prems(2) have ni: "i \<notin> set is" and d: "distinct is" by simp_all
  show ?case
  proof (cases "map_of (hash s) i")
    case None
    with Cons.IH [OF Cons.prems(1) d] Cons.prems(3) show ?thesis by simp
  next
    case (Some c)
    let ?s1 = "revoke_existing c s"
    let ?s2 = "snd (renotify h now i c ?s1)"
    from Cons.prems(3) Some have "notification c \<noteq> Some b" by simp
    then have c1: "store ?s1 ! b = store s ! b"
      by (rule revoke_existing_cell)
    have b1: "b < length (store ?s1)"
      using Cons.prems(1) by simp
    then have c2: "store ?s2 ! b = store s ! b"
      using c1 by (simp add: renotify_cell)
    have b2: "b < length (store ?s2)"
      using b1 extends_length [OF renotify_extends, of ?s1 h now i c] by simp
    have r2: "\<forall>k \<in> set is. \<forall>c'. map_of (hash ?s2) k = Some c' \<longrightarrow> notification c' \<noteq> Some b"
    proof (intro ballI allI impI)
      fix k c'
      assume k: "k \<in> set is" and m: "map_of (hash ?s2) k = Some c'"
      from k ni have "k \<noteq> i" by auto
      with m have "map_of (hash s) k = Some c'"
        by (simp add: renotify_other_key)
      with Cons.prems(3) k show "notification c' \<noteq> Some b" by simp
    qed
    from Cons.IH [OF b2 d r2] c2 show ?thesis
      unfolding updateNotifications_loop_Cons [OF Some] by (simp split: sum.splits)
  qed
qed

lemma notify_eligible:
  assumes "map_of (hash s) i = Some c" and "eligible h now s c"
  shows "\<exists>n. live n \<and> n_comp_id n = comp_id c \<and>
             store (snd (notify h now i s)) = store s @ [n] \<and>
             map_of (hash (snd (notify h now i s))) i =
               Some (c\<lparr>notification := Some (length (store s))\<rparr>)"
proof -
  from assms(2) obtain r k where r: "fst (getRemainingTime h now (beginTime c) s) = Inr r"
    "js_gt (delay s) (Num 0)" "js_gt r (Num 0)"
    "js_indexOf h (rates s) (ratingValue c) = Inr k" "not_not_tilde k"
    by (auto simp: eligible_def split: sum.splits)
  with assms(1) have nt: "snd (notify h now i s) =
      set_notification i (length (store s)) (snd (createNotification c r s))"
    by (simp add: notify_unfold)
  obtain n where n: "store (snd (createNotification c r s)) = store s @ [n]" "live n"
    "n_comp_id n = comp_id c"
    using createNotification_store by blast
  have "map_of (hash (snd (notify h now i s))) i =
      Some (c\<lparr>notification := Some (length (store s))\<rparr>)"
    unfolding nt using assms(1) by (simp add: set_notification_hash map_of_map_entry)
  with n nt show ?thesis by simp
qed

lemma notify_not_eligible:
  assumes "map_of (hash s) i = Some c" and "\<not> eligible h now s c"
  shows "snd (notify h now i s) = s"
proof (cases rule: notify_cases [of h now i s])
  case same
  then show ?thesis .
next
  case (armed c' r)
  with assms show ?thesis by simp
qed


text \<open>
  What the loop does to the entry of a key it visits: an eligible entry refers to a new
  live notification, any other entry is as it was.
\<close>

lemma updateNotifications_loop_rearms:
  assumes "well_typed s" and "refs_valid s" and "distinct is" and "k \<in> set is"
    and "map_of (hash s) k = Some c"
  shows "if eligible h now s c
     then (\<exists>a. length (store s) \<le> a \<and>
               a < length (store (snd (updateNotifications_loop h now is s))) \<and>
               live (store (snd (updateNotifications_loop h now is s)) ! a) \<and>
               n_comp_id (store (snd (updateNotifications_loop h now is s)) ! a) = comp_id c \<and>
               map_of (hash (snd (updateNotifications_loop h now is s))) k =
                 Some (c\<lparr>notification := Some a\<rparr>))
     else map_of (hash (snd (updateNotifications_loop h now is s))) k = Some c"
  using assms
proof (induction "is" arbitrary: s)
  case Nil
  then show ?case by simp
next
  case (Cons i "is")
  from Cons.prems(3) have ni: "i \<notin> set is" and d: "distinct is" by simp_all
  show ?case
  proof (cases "map_of (hash s) i")
    case None
    with Cons.prems(4,5) have "k \<in> set is" by auto
    from Cons.IH [OF Cons.prems(1,2) d this Cons.prems(5)] None show ?thesis
      by simp
  next
    case (Some ci)
    let ?s1 = "revoke_existing ci s"
    let ?s2 = "snd (renotify h now i ci ?s1)"
    let ?s' = "snd (updateNotifications_loop h now is ?s2)"
    have res: "snd (updateNotifications_loop h now (i # is) s) = ?s'"
      unfolding updateNotifications_loop_Cons [OF Some]
      using renotify_returns [OF Cons.prems(1) Some, of h now] by simp
    have wt: "well_typed ?s2"
      using Cons.prems(1) by (intro well_typed_renotify well_typed_revoke_existing)
    have rv: "refs_valid ?s2"
      using Cons.prems(2)
      by (simp add: renotify_def refs_valid_notify refs_valid_revoke_existing)
    have sc1: "same_config s ?s1"
      by simp
    have sc: "same_config s ?s2"
      by (rule same_config_trans [OF same_config_revoke_existing same_config_renotify])
    have ex: "extends s ?s2"
      by (rule extends_trans [OF revoke_existing_extends renotify_extends])
    have h1: "map_of (hash ?s1) i = Some ci"
      using Some by simp
    show ?thesis
    proof (cases "k = i")
      case False
      with Cons.prems(4) have kis: "k \<in> set is" by simp
      from False Cons.prems(5) have m2: "map_of (hash ?s2) k = Some c"
        by (simp add: renotify_other_key)
      have e2: "eligible h now ?s2 c = eligible h now s c"
        using sc by (rule eligible_same_config)
      show ?thesis
      proof (cases "eligible h now s c")
        case el: True
        with Cons.IH [OF wt rv d kis m2] e2 obtain a where a: "length (store ?s2) \<le> a"
          "a < length (store ?s')" "live (store ?s' ! a)" "n_comp_id (store ?s' ! a) = comp_id c"
          "map_of (hash ?s') k = Some (c\<lparr>notification := Some a\<rparr>)"
          by auto
        from a(1) extends_length [OF ex] have "length (store s) \<le> a" by simp
        with a(2-5) have "\<exists>a. length (store s) \<le> a \<and> a < length (store ?s') \<and>
            live (store ?s' ! a) \<and> n_comp_id (store ?s' ! a) = comp_id c \<and>
            map_of (hash ?s') k = Some (c\<lparr>notification := Some a\<rparr>)"
          by blast
        with el show ?thesis
          unfolding res by simp
      next
        case nel: False
        with Cons.IH [OF wt rv d kis m2] e2 show ?thesis
          unfolding res by simp
      qed
    next
      case True
      with Some Cons.prems(5) have cc: "ci = c" by simp
      have keep: "map_of (hash ?s') i = map_of (hash ?s2) i"
        using ni by (rule updateNotifications_loop_other_key)
      show ?thesis
      proof (cases "eligible h now s c")
        case False
        then have "\<not> eligible h now ?s1 ci"
          using eligible_same_config [OF sc1, of h now ci] cc by simp
        from notify_not_eligible [OF h1 this] have "?s2 = ?s1"
          by (simp add: renotify_def)
        with keep h1 cc False True show ?thesis
          unfolding res by simp
      next
        case el: True
        then have e1: "eligible h now ?s1 ci"
          using eligible_same_config [OF sc1, of h now ci] cc by simp
        then have "beginTime ci \<noteq> JNull"
          by (rule eligible_not_null)
        then have s2: "?s2 = snd (notify h now i ?s1)"
          by (simp add: renotify_def)
        let ?L = "length (store s)"
        from notify_eligible [OF h1 e1] obtain n where n: "live n" "n_comp_id n = comp_id ci"
          "store ?s2 = store ?s1 @ [n]"
          "map_of (hash ?s2) i = Some (ci\<lparr>notification := Some ?L\<rparr>)"
          unfolding s2 by auto
        have cell2: "store ?s2 ! ?L = n" and len2: "?L < length (store ?s2)"
          using n(3) by (simp_all add: nth_append)
        have other: "\<forall>k' \<in> set is. \<forall>c'. map_of (hash ?s2) k' = Some c' \<longrightarrow>
            notification c' \<noteq> Some ?L"
        proof (intro ballI allI impI)
          fix k' c'
          assume k': "k' \<in> set is" and m: "map_of (hash ?s2) k' = Some c'"
          from k' ni have "k' \<noteq> i" by auto
          with m have "map_of (hash s) k' = Some c'"
            by (simp add: renotify_other_key)
          then have "(k', c') \<in> set (hash s)"
            by (rule map_of_SomeD)
          with Cons.prems(2) show "notification c' \<noteq> Some ?L"
            by (auto simp: refs_valid_def)
        qed
        from updateNotifications_loop_cell [OF len2 d other, of h now]
        have cell: "store ?s' ! ?L = n"
          using cell2 by simp
        have len: "?L < length (store ?s')"
          using len2 extends_length [OF updateNotifications_loop_extends, of ?s2 h now "is"]
          by simp
        from cell len n keep cc True
        have "\<exists>a. length (store s) \<le> a \<and> a < length (store ?s') \<and>
            live (store ?s' ! a) \<and> n_comp_id (store ?s' ! a) = comp_id c \<and>
            map_of (hash ?s') k = Some (c\<lparr>notification := Some a\<rparr>)"
          by (intro exI [of _ ?L]) simp
        with el show ?thesis
          unfolding res by simp
      qed
    qed
  qed
qed

lemma engine_inv_setParams_config [simp]: "engine_inv (setParams_config p s) = engine_inv s"
  by (simp add: engine_inv_def table_ok_def one_live_per_id_def owned_def setParams_config_fields)

text \<open>
  C3. At the start the table has one entry for a key, each stored under its id, no two
  live notifications are for the same id, and a live notification for the id of an entry
  is the one the entry refers to. Then in every state \<^verbatim>\<open>setParams\<close> passes through, after
  the assignments, after each revocation and after each call of \<^verbatim>\<open>_notify\<close>, down to the
  state it leaves, no two live notifications are for the same id: the loop revokes the
  notification of an entry before it arms a new one. When the resulting state is well
  typed the call returns and the notification every entry referred to is revoked; and
  when the delay is set to 0 the store has only lost live notifications and the table is
  as it was, so none is armed. When moreover every reference is an address of the store,
  every entry that is eligible under the new configuration refers, at the end, to a live
  notification for its id that the call created, and every other entry is as it was.
\<close>

theorem setParams_reconciles:
  assumes "table_ok s" and "one_live_per_id s" and "owned s"
  shows "(\<forall>t \<in> set (setParams_trace h now p s). one_live_per_id t)
     \<and> last (setParams_trace h now p s) = snd (setParams h now p s)
     \<and> (well_typed (setParams_config p s) \<longrightarrow>
          fst (setParams h now p s) = Inr () \<and>
          (\<forall>(k, c) \<in> set (hash s). \<forall>a. notification c = Some a \<and> a < length (store s) \<longrightarrow>
             n_revoked (store (snd (setParams h now p s)) ! a)) \<and>
          (p_delay p = JNum (Num 0) \<longrightarrow>
             only_revokes s (snd (setParams h now p s)) \<and>
             hash (snd (setParams h now p s)) = hash s))
     \<and> (well_typed (setParams_config p s) \<and> refs_valid s \<longrightarrow>
          (\<forall>(k, c) \<in> set (hash s).
             if eligible h now (setParams_config p s) c
             then (\<exists>a. length (store s) \<le> a \<and>
                       a < length (store (snd (setParams h now p s))) \<and>
                       live (store (snd (setParams h now p s)) ! a) \<and>
                       n_comp_id (store (snd (setParams h now p s)) ! a) = comp_id c \<and>
                       map_of (hash (snd (setParams h now p s))) k =
                         Some (c\<lparr>notification := Some a\<rparr>))
             else map_of (hash (snd (setParams h now p s))) k = Some c))"
proof -
  let ?s1 = "setParams_config p s"
  let ?ks = "map fst (hash ?s1)"
  have "engine_inv s"
    using assms by (simp add: engine_inv_def)
  then have inv: "engine_inv ?s1"
    by simp
  have hs: "hash ?s1 = hash s" and st: "store ?s1 = store s"
    by (simp_all add: setParams_config_fields)
  have 1: "\<forall>t \<in> set (setParams_trace h now p s). one_live_per_id t"
  proof
    fix t
    assume "t \<in> set (setParams_trace h now p s)"
    then have "t = ?s1 \<or> t \<in> set (updateNotifications_trace h now ?ks ?s1)"
      by (simp add: setParams_trace_def Let_def)
    with inv updateNotifications_trace_inv [OF inv] have "engine_inv t"
      by blast
    then show "one_live_per_id t"
      by (simp add: engine_inv_def)
  qed
  have 2: "last (setParams_trace h now p s) = snd (setParams h now p s)"
    using updateNotifications_trace_last [of ?s1 h now ?ks]
    by (simp add: setParams_trace_def setParams_def updateNotifications_def Let_def)
  have 3: "fst (setParams h now p s) = Inr () \<and>
          (\<forall>(k, c) \<in> set (hash s). \<forall>a. notification c = Some a \<and> a < length (store s) \<longrightarrow>
             n_revoked (store (snd (setParams h now p s)) ! a)) \<and>
          (p_delay p = JNum (Num 0) \<longrightarrow>
             only_revokes s (snd (setParams h now p s)) \<and>
             hash (snd (setParams h now p s)) = hash s)"
    if wt: "well_typed ?s1"
  proof (intro conjI)
    show "fst (setParams h now p s) = Inr ()"
      unfolding setParams_def updateNotifications_def
      using wt by (rule updateNotifications_loop_returns)
    have "n_revoked (store (snd (setParams h now p s)) ! a)"
      if "(k, c) \<in> set (hash s)" "notification c = Some a" "a < length (store s)" for k c a
    proof -
      from assms(1) that(1) have "map_of (hash ?s1) k = Some c"
        unfolding hs by (simp add: table_ok_def)
      moreover from that(1) have "k \<in> set ?ks"
        unfolding hs by force
      moreover from that(3) have "a < length (store ?s1)"
        unfolding st .
      ultimately show ?thesis
        unfolding setParams_def updateNotifications_def
        using wt that(2) updateNotifications_loop_revokes by blast
    qed
    then show "\<forall>(k, c) \<in> set (hash s). \<forall>a. notification c = Some a \<and> a < length (store s) \<longrightarrow>
             n_revoked (store (snd (setParams h now p s)) ! a)"
      by blast
    show "p_delay p = JNum (Num 0) \<longrightarrow>
             only_revokes s (snd (setParams h now p s)) \<and>
             hash (snd (setParams h now p s)) = hash s"
    proof
      assume "p_delay p = JNum (Num 0)"
      then have "\<not> js_gt (delay ?s1) (Num 0)"
        by (simp add: setParams_config_fields)
      from updateNotifications_loop_delay_0 [OF this, of h now ?ks]
      show "only_revokes s (snd (setParams h now p s)) \<and>
             hash (snd (setParams h now p s)) = hash s"
        unfolding setParams_def updateNotifications_def hs
        by (simp add: only_revokes_def st)
    qed
  qed
  have 4: "\<forall>(k, c) \<in> set (hash s).
             if eligible h now ?s1 c
             then (\<exists>a. length (store s) \<le> a \<and>
                       a < length (store (snd (setParams h now p s))) \<and>
                       live (store (snd (setParams h now p s)) ! a) \<and>
                       n_comp_id (store (snd (setParams h now p s)) ! a) = comp_id c \<and>
                       map_of (hash (snd (setParams h now p s))) k =
                         Some (c\<lparr>notification := Some a\<rparr>))
             else map_of (hash (snd (setParams h now p s))) k = Some c"
    if wt: "well_typed ?s1" and rv: "refs_valid s"
  proof (intro ballI, clarify)
    fix k c
    assume kc: "(k, c) \<in> set (hash s)"
    from assms(1) have dk: "distinct ?ks"
      unfolding hs by (simp add: table_ok_def)
    from assms(1) kc have m: "map_of (hash ?s1) k = Some c"
      unfolding hs by (simp add: table_ok_def)
    from kc have k: "k \<in> set ?ks"
      unfolding hs by force
    from rv have rv1: "refs_valid ?s1"
      by (simp add: refs_valid_def hs st)
    from updateNotifications_loop_rearms [OF wt rv1 dk k m, of h now]
    show "if eligible h now ?s1 c
             then (\<exists>a. length (store s) \<le> a \<and>
                       a < length (store (snd (setParams h now p s))) \<and>
                       live (store (snd (setParams h now p s)) ! a) \<and>
                       n_comp_id (store (snd (setParams h now p s)) ! a) = comp_id c \<and>
                       map_of (hash (snd (setParams h now p s))) k =
                         Some (c\<lparr>notification := Some a\<rparr>))
             else map_of (hash (snd (setParams h now p s))) k = Some c"
      unfolding setParams_def updateNotifications_def st by simp
  qed
  from 1 2 3 4 show ?thesis by blast
qed


lemma demo_state_engine_inv:
  "table_ok demo_state \<and> one_live_per_id demo_state \<and> owned demo_state"
  by (auto simp: table_ok_def one_live_per_id_def owned_def demo_state_def live_def
      less_Suc_eq numeral_2_eq_2)

lemma demo_delay0_well_typed: "well_typed (setParams_config demo_params_delay0 demo_state)"
  by (simp add: well_typed_def setParams_config_fields beginTime_typed_def demo_state_def
      demo_params_delay0_def)

lemma demo_well_typed: "well_typed (setParams_config demo_params demo_state)"
  by (simp add: well_typed_def setParams_config_fields beginTime_typed_def demo_state_def
      demo_params_def)

lemma demo_eligible_7:
  "(7, snd (hd (hash demo_state))) \<in> set (hash demo_state) \<and>
   eligible demo_host 1000000 (setParams_config demo_params demo_state) (snd (hd (hash demo_state)))"
  by (simp add: eligible_def setParams_config_fields getRemainingTime_def not_not_tilde_def
      demo_state_def demo_host_def demo_params_def)

theorem setParams_reconciles_witness:
  "p_delay demo_params_delay0 = JNum (Num 0) \<and>
   live (store demo_state ! 0) \<and> live (store demo_state ! 1) \<and>
   fst (setParams demo_host 1000000 demo_params_delay0 demo_state) = Inr () \<and>
   length (store (snd (setParams demo_host 1000000 demo_params_delay0 demo_state))) = 2 \<and>
   n_revoked (store (snd (setParams demo_host 1000000 demo_params_delay0 demo_state)) ! 0) \<and>
   n_revoked (store (snd (setParams demo_host 1000000 demo_params_delay0 demo_state)) ! 1) \<and>
   (\<exists>a. 2 \<le> a \<and>
        live (store (snd (setParams demo_host 1000000 demo_params demo_state)) ! a) \<and>
        n_comp_id (store (snd (setParams demo_host 1000000 demo_params demo_state)) ! a) = 7 \<and>
        map_of (hash (snd (setParams demo_host 1000000 demo_params demo_state))) 7 =
          Some \<lparr>comp_id = 7, ratingValue = 3, beginTime = JNum (Num 1300),
                notification = Some a\<rparr>)"
proof -
  note inv = demo_state_engine_inv
  note wt = demo_delay0_well_typed
  have d: "p_delay demo_params_delay0 = JNum (Num 0)"
    by (simp add: demo_params_delay0_def)
  have e: "(7, snd (hd (hash demo_state))) \<in> set (hash demo_state) \<and>
      notification (snd (hd (hash demo_state))) = Some 0 \<and>
      (9, snd (hd (tl (hash demo_state)))) \<in> set (hash demo_state) \<and>
      notification (snd (hd (tl (hash demo_state)))) = Some 1 \<and>
      length (store demo_state) = 2"
    by (simp add: demo_state_def)
  have lv: "live (store demo_state ! 0) \<and> live (store demo_state ! 1)"
    by (simp add: demo_state_def live_def)
  from setParams_reconciles [of demo_state demo_host 1000000 demo_params_delay0] inv wt d
  have r: "fst (setParams demo_host 1000000 demo_params_delay0 demo_state) = Inr ()"
    and a: "\<forall>(k, c) \<in> set (hash demo_state).
        \<forall>a. notification c = Some a \<and> a < length (store demo_state) \<longrightarrow>
          n_revoked (store (snd (setParams demo_host 1000000 demo_params_delay0 demo_state)) ! a)"
    and o: "only_revokes demo_state (snd (setParams demo_host 1000000 demo_params_delay0 demo_state))"
    by blast+
  from a e have "n_revoked (store (snd (setParams demo_host 1000000 demo_params_delay0 demo_state)) ! 0)"
    "n_revoked (store (snd (setParams demo_host 1000000 demo_params_delay0 demo_state)) ! 1)"
    by fastforce+
  moreover from o e
  have "length (store (snd (setParams demo_host 1000000 demo_params_delay0 demo_state))) = 2"
    by (simp add: only_revokes_def)
  moreover have "\<exists>a. 2 \<le> a \<and>
        live (store (snd (setParams demo_host 1000000 demo_params demo_state)) ! a) \<and>
        n_comp_id (store (snd (setParams demo_host 1000000 demo_params demo_state)) ! a) = 7 \<and>
        map_of (hash (snd (setParams demo_host 1000000 demo_params demo_state))) 7 =
          Some \<lparr>comp_id = 7, ratingValue = 3, beginTime = JNum (Num 1300),
                notification = Some a\<rparr>"
  proof -
    from setParams_reconciles [of demo_state demo_host 1000000 demo_params] inv demo_well_typed
      demo_state_refs
    have "\<forall>(k, c) \<in> set (hash demo_state).
        if eligible demo_host 1000000 (setParams_config demo_params demo_state) c
        then (\<exists>a. length (store demo_state) \<le> a \<and>
                  a < length (store (snd (setParams demo_host 1000000 demo_params demo_state))) \<and>
                  live (store (snd (setParams demo_host 1000000 demo_params demo_state)) ! a) \<and>
                  n_comp_id (store (snd (setParams demo_host 1000000 demo_params demo_state)) ! a) =
                    comp_id c \<and>
                  map_of (hash (snd (setParams demo_host 1000000 demo_params demo_state))) k =
                    Some (c\<lparr>notification := Some a\<rparr>))
        else map_of (hash (snd (setParams demo_host 1000000 demo_params demo_state))) k = Some c"
      by blast
    with demo_eligible_7 obtain a where "length (store demo_state) \<le> a"
      "live (store (snd (setParams demo_host 1000000 demo_params demo_state)) ! a)"
      "n_comp_id (store (snd (setParams demo_host 1000000 demo_params demo_state)) ! a) =
         comp_id (snd (hd (hash demo_state)))"
      "map_of (hash (snd (setParams demo_host 1000000 demo_params demo_state))) 7 =
         Some ((snd (hd (hash demo_state)))\<lparr>notification := Some a\<rparr>)"
      by fastforce
    then show ?thesis
      by (intro exI [of _ a]) (simp add: demo_state_def)
  qed
  ultimately show ?thesis
    using d lv r by simp
qed

end
